theory Spec2Isabelle
  imports Main "HOL-Library.Word" "HOL-Library.Signed_Division"
begin

unbundle bit_operations_syntax

section \<open>Go runtime panics\<close>

text \<open>
  A Go function that indexes a slice out of range, divides an integer by zero, calls a nil
  function value, or sends on or closes a closed channel does not return: it panics. Every
  operation below that can do so returns \<open>panic + result\<close>, with \<open>Inl\<close> for the panic.
\<close>

datatype panic =
  DivideByZero | IndexOutOfRange | NilDereference | SendOnClosedChannel | CloseOfClosedChannel |
  LRUCreateFailed | NegativeChanSize

text \<open>
  The \<^verbatim>\<open>error\<close> values the code returns: the logger's "already closed" and "close timed
  out", the "channel full" report, \<^verbatim>\<open>context.Canceled\<close>, an error of the log sink, and
  \<^verbatim>\<open>errors.Join\<close> of a list of errors.
\<close>

datatype error =
  ErrClosed | ErrCloseTimeout | ErrChannelFull | ErrCanceled | ErrSink string | ErrJoin "error list"

fun bind_p :: "panic + 'a \<Rightarrow> ('a \<Rightarrow> panic + 'b) \<Rightarrow> panic + 'b" where
  "bind_p (Inl p) f = Inl p"
| "bind_p (Inr x) f = f x"

section \<open>metrics.go: the ring buffer\<close>

text \<open>
  \<^verbatim>\<open>ringBuffer\<close> holds \<^verbatim>\<open>func(*dbMetrics)\<close> values in a slice of \<^verbatim>\<open>size\<close> slots; a slot that was
  never written holds \<^verbatim>\<open>nil\<close> (\<open>None\<close>). The item type is a parameter. The fields
  \<^verbatim>\<open>size\<close>, \<^verbatim>\<open>head\<close>, \<^verbatim>\<open>tail\<close> and \<^verbatim>\<open>count\<close> are Go \<^verbatim>\<open>int\<close>s that start at zero and only change
  by \<^verbatim>\<open>+ 1\<close>, \<^verbatim>\<open>% size\<close> and a guarded \<^verbatim>\<open>count--\<close>; they stay within the slice length, so
  they are natural numbers here. The mutex is not modelled: each operation is one atomic step.
\<close>

record 'a ringBuffer =
  buffer :: "'a option list"
  size_rb :: nat
  head :: nat
  tail :: nat
  count_rb :: nat

text \<open>\<^verbatim>\<open>newRingBuffer(size)\<close>: \<^verbatim>\<open>make\<close> fills the slice with \<^verbatim>\<open>nil\<close>.\<close>

definition newRingBuffer :: "nat \<Rightarrow> 'a ringBuffer" where
  "newRingBuffer n = \<lparr>buffer = replicate n None, size_rb = n, head = 0, tail = 0, count_rb = 0\<rparr>"

text \<open>
  \<^verbatim>\<open>Enqueue\<close>, statement by statement. \<^verbatim>\<open>x % rb.size\<close> panics when \<^verbatim>\<open>rb.size\<close> is zero and
  \<^verbatim>\<open>rb.buffer[rb.tail] = item\<close> panics when \<^verbatim>\<open>rb.tail\<close> is not an index of the slice.
\<close>

definition Enqueue :: "'a \<Rightarrow> 'a ringBuffer \<Rightarrow> panic + (bool \<times> 'a ringBuffer)" where
  "Enqueue item rb =
     (if count_rb rb = size_rb rb then
        (if size_rb rb = 0 then Inl DivideByZero
         else let rb1 = rb\<lparr>head := (head rb + 1) mod size_rb rb\<rparr> in
           if length (buffer rb1) \<le> tail rb1 then Inl IndexOutOfRange
           else let rb2 = rb1\<lparr>buffer := (buffer rb1)[tail rb1 := Some item]\<rparr>;
                    rb3 = rb2\<lparr>tail := (tail rb2 + 1) mod size_rb rb2\<rparr>
                in Inr (False, rb3))
      else
        (if length (buffer rb) \<le> tail rb then Inl IndexOutOfRange
         else let rb1 = rb\<lparr>buffer := (buffer rb)[tail rb := Some item]\<rparr> in
           if size_rb rb1 = 0 then Inl DivideByZero
           else let rb2 = rb1\<lparr>tail := (tail rb1 + 1) mod size_rb rb1\<rparr>;
                    rb3 = rb2\<lparr>count_rb := count_rb rb2 + 1\<rparr>
                in Inr (True, rb3)))"

definition Dequeue :: "'a ringBuffer \<Rightarrow> panic + (('a option \<times> bool) \<times> 'a ringBuffer)" where
  "Dequeue rb =
     (if count_rb rb = 0 then Inr ((None, False), rb)
      else if length (buffer rb) \<le> head rb then Inl IndexOutOfRange
      else let item = buffer rb ! head rb in
        if size_rb rb = 0 then Inl DivideByZero
        else let rb1 = rb\<lparr>head := (head rb + 1) mod size_rb rb\<rparr>;
                 rb2 = rb1\<lparr>count_rb := count_rb rb1 - 1\<rparr>
             in Inr ((item, True), rb2))"

text \<open>
  Enqueueing a list of items one after the other, and dequeueing until \<^verbatim>\<open>Dequeue\<close> reports
  empty (\<^verbatim>\<open>ok == false\<close>). Each successful \<^verbatim>\<open>Dequeue\<close> lowers \<^verbatim>\<open>count\<close>, so the second loop
  terminates on every buffer.
\<close>

fun enqueue_all :: "'a list \<Rightarrow> 'a ringBuffer \<Rightarrow> panic + 'a ringBuffer" where
  "enqueue_all [] rb = Inr rb"
| "enqueue_all (x # xs) rb =
     (case Enqueue x rb of Inl p \<Rightarrow> Inl p | Inr (ok, rb') \<Rightarrow> enqueue_all xs rb')"

function dequeue_all :: "'a ringBuffer \<Rightarrow> panic + 'a option list" where
  "dequeue_all rb =
     (case Dequeue rb of
        Inl p \<Rightarrow> Inl p
      | Inr ((item, ok), rb') \<Rightarrow>
          if \<not> ok then Inr []
          else (case dequeue_all rb' of Inl p \<Rightarrow> Inl p | Inr items \<Rightarrow> Inr (item # items)))"
  by pat_completeness auto
termination
  by (relation "measure count_rb") (auto simp: Dequeue_def Let_def split: if_splits)

declare dequeue_all.simps [simp del]

text \<open>
  The representation invariant of a buffer made by \<^verbatim>\<open>newRingBuffer\<close> with a positive size, and
  the queue it represents: the \<^verbatim>\<open>count\<close> slots from \<^verbatim>\<open>head\<close> on, cyclically, oldest first.
\<close>

definition rb_inv :: "'a ringBuffer \<Rightarrow> bool" where
  "rb_inv rb \<longleftrightarrow>
     0 < size_rb rb \<and> length (buffer rb) = size_rb rb \<and> head rb < size_rb rb \<and>
     count_rb rb \<le> size_rb rb \<and> tail rb = (head rb + count_rb rb) mod size_rb rb"

definition contents :: "'a ringBuffer \<Rightarrow> 'a option list" where
  "contents rb = map (\<lambda>i. buffer rb ! ((head rb + i) mod size_rb rb)) [0..<count_rb rb]"


lemma rb_inv_new: "0 < n \<Longrightarrow> rb_inv (newRingBuffer n)"
  by (simp add: rb_inv_def newRingBuffer_def)

lemma contents_new: "contents (newRingBuffer n) = []"
  by (simp add: contents_def newRingBuffer_def)

lemma mod_shift_inj_le:
  fixes h :: nat
  assumes "i \<le> j" "j < n" "(h + i) mod n = (h + j) mod n"
  shows "i = j"
proof -
  have "h + i \<le> h + j" using assms(1) by simp
  then have "(h + j) mod n = (h + i) mod n \<longleftrightarrow> n dvd (h + j) - (h + i)"
    by (rule mod_eq_dvd_iff_nat)
  with assms(3) have "n dvd j - i" by simp
  moreover have "j - i < n" using assms(2) by simp
  ultimately have "j - i = 0" by (meson dvd_imp_le not_less zero_less_iff_neq_zero)
  with assms(1) show ?thesis by simp
qed

lemma mod_shift_inj:
  fixes h :: nat
  assumes "i < n" "j < n" "(h + i) mod n = (h + j) mod n"
  shows "i = j"
proof (cases "i \<le> j")
  case True
  with assms show ?thesis by (simp add: mod_shift_inj_le)
next
  case False
  then have "j \<le> i" by simp
  with assms(1) assms(3) [symmetric] have "j = i" by (rule mod_shift_inj_le[rotated 1]) 
  then show ?thesis by simp
qed

lemma length_contents: "length (contents rb) = count_rb rb"
  by (simp add: contents_def)

lemma Enqueue_not_full:
  assumes "rb_inv rb" "count_rb rb \<noteq> size_rb rb"
  shows "\<exists>rb'. Enqueue x rb = Inr (True, rb') \<and> rb_inv rb' \<and> size_rb rb' = size_rb rb \<and>
           contents rb' = contents rb @ [Some x]"
proof -
  let ?n = "size_rb rb"
  let ?rb' = "rb\<lparr>buffer := (buffer rb)[tail rb := Some x], tail := (tail rb + 1) mod ?n,
                count_rb := count_rb rb + 1\<rparr>"
  from assms have n: "0 < ?n" and len: "length (buffer rb) = ?n" and h: "head rb < ?n"
    and c: "count_rb rb < ?n" and t: "tail rb = (head rb + count_rb rb) mod ?n"
    by (auto simp: rb_inv_def)
  have tl: "tail rb < ?n" using t n by simp
  have E: "Enqueue x rb = Inr (True, ?rb')"
    using assms(2) n len tl by (simp add: Enqueue_def Let_def)
  have I: "rb_inv ?rb'"
    using n len h c t by (simp add: rb_inv_def mod_simps add.assoc)
  have C: "contents ?rb' = contents rb @ [Some x]"
  proof (rule nth_equalityI)
    show "length (contents ?rb') = length (contents rb @ [Some x])"
      by (simp add: length_contents)
  next
    fix i assume "i < length (contents ?rb')"
    then have i: "i \<le> count_rb rb" by (simp add: length_contents)
    show "contents ?rb' ! i = (contents rb @ [Some x]) ! i"
    proof (cases "i = count_rb rb")
      case True
      then show ?thesis
        using t tl len by (simp add: contents_def nth_append del: upt_Suc)
    next
      case False
      with i have lt: "i < count_rb rb" by simp
      then have "i < ?n" using c by simp
      have "(head rb + i) mod ?n \<noteq> tail rb"
      proof
        assume "(head rb + i) mod ?n = tail rb"
        with t have "(head rb + i) mod ?n = (head rb + count_rb rb) mod ?n" by simp
        with \<open>i < ?n\<close> c have "i = count_rb rb" by (rule mod_shift_inj)
        with False show False by simp
      qed
      then show ?thesis
        using lt by (simp add: contents_def nth_append del: upt_Suc)
    qed
  qed
  from E I C show ?thesis by auto
qed

lemma Enqueue_full:
  assumes "rb_inv rb" "count_rb rb = size_rb rb"
  shows "\<exists>rb'. Enqueue x rb = Inr (False, rb') \<and> rb_inv rb' \<and> size_rb rb' = size_rb rb \<and>
           contents rb' = tl (contents rb) @ [Some x]"
proof -
  let ?n = "size_rb rb"
  let ?rb' = "rb\<lparr>head := (head rb + 1) mod ?n, buffer := (buffer rb)[tail rb := Some x],
                tail := (tail rb + 1) mod ?n\<rparr>"
  from assms have n: "0 < ?n" and len: "length (buffer rb) = ?n" and h: "head rb < ?n"
    and c: "count_rb rb = ?n" and t: "tail rb = (head rb + count_rb rb) mod ?n"
    by (auto simp: rb_inv_def)
  have th: "tail rb = head rb" using t c h by simp
  have E: "Enqueue x rb = Inr (False, ?rb')"
    using c n len h th by (simp add: Enqueue_def Let_def)
  have I: "rb_inv ?rb'"
    using n len h c th by (simp add: rb_inv_def mod_simps)
  have C: "contents ?rb' = tl (contents rb) @ [Some x]"
  proof (rule nth_equalityI)
    show "length (contents ?rb') = length (tl (contents rb) @ [Some x])"
      using n c by (simp add: length_contents)
  next
    fix i assume "i < length (contents ?rb')"
    then have i: "i < ?n" using c by (simp add: length_contents)
    have idx: "((head rb + 1) mod ?n + i) mod ?n = (head rb + (i + 1)) mod ?n"
      by (simp add: mod_simps add.assoc add.commute)
    show "contents ?rb' ! i = (tl (contents rb) @ [Some x]) ! i"
    proof (cases "i = ?n - 1")
      case True
      then have "(head rb + (i + 1)) mod ?n = head rb" using n h by simp
      then show ?thesis
        using True i c th len h idx
        by (simp add: contents_def nth_append length_contents del: upt_Suc)
    next
      case False
      with i have lt: "i + 1 < ?n" by simp
      then have lt': "i < ?n - 1" by simp
      have "(head rb + (i + 1)) mod ?n \<noteq> head rb"
      proof
        assume "(head rb + (i + 1)) mod ?n = head rb"
        then have "(head rb + (i + 1)) mod ?n = (head rb + 0) mod ?n" using h by simp
        with lt n have "i + 1 = 0" by (rule mod_shift_inj)
        then show False by simp
      qed
      then show ?thesis
        using lt lt' i c th idx
        by (simp add: contents_def nth_append nth_tl length_contents del: upt_Suc)
    qed
  qed
  from E I C show ?thesis by auto
qed

lemma Dequeue_empty:
  "count_rb rb = 0 \<Longrightarrow> Dequeue rb = Inr ((None, False), rb)"
  by (simp add: Dequeue_def)

lemma Dequeue_nonempty:
  assumes "rb_inv rb" "count_rb rb \<noteq> 0"
  shows "\<exists>rb'. Dequeue rb = Inr ((hd (contents rb), True), rb') \<and> rb_inv rb' \<and>
           size_rb rb' = size_rb rb \<and> contents rb' = tl (contents rb)"
proof -
  let ?n = "size_rb rb"
  let ?rb' = "rb\<lparr>head := (head rb + 1) mod ?n, count_rb := count_rb rb - 1\<rparr>"
  from assms have n: "0 < ?n" and len: "length (buffer rb) = ?n" and h: "head rb < ?n"
    and c: "count_rb rb \<le> ?n" "0 < count_rb rb" and t: "tail rb = (head rb + count_rb rb) mod ?n"
    by (auto simp: rb_inv_def)
  have H: "hd (contents rb) = buffer rb ! head rb"
    using c h by (simp add: contents_def hd_map upt_conv_Cons del: upt_Suc)
  have E: "Dequeue rb = Inr ((hd (contents rb), True), ?rb')"
    using c n len h H by (simp add: Dequeue_def Let_def)
  have "((head rb + 1) mod ?n + (count_rb rb - 1)) mod ?n = (head rb + 1 + (count_rb rb - 1)) mod ?n"
    by (simp add: mod_simps)
  also have "head rb + 1 + (count_rb rb - 1) = head rb + count_rb rb" using c by simp
  finally have T: "tail rb = ((head rb + 1) mod ?n + (count_rb rb - 1)) mod ?n"
    using t by simp
  have I: "rb_inv ?rb'"
    using n len h c T by (simp add: rb_inv_def)
  have C: "contents ?rb' = tl (contents rb)"
  proof (rule nth_equalityI)
    show "length (contents ?rb') = length (tl (contents rb))"
      by (simp add: length_contents)
  next
    fix i assume "i < length (contents ?rb')"
    then have i: "i < count_rb rb - 1" by (simp add: length_contents)
    have idx: "((head rb + 1) mod ?n + i) mod ?n = (head rb + (i + 1)) mod ?n"
      by (simp add: mod_simps add.assoc add.commute)
    from i have i': "i + 1 < count_rb rb" by simp
    show "contents ?rb' ! i = tl (contents rb) ! i"
      using i i' idx by (simp add: contents_def nth_tl length_contents del: upt_Suc)
  qed
  from E I C show ?thesis by auto
qed


text \<open>The last \<open>n\<close> elements of a list (all of it when it is shorter).\<close>

definition lastn :: "nat \<Rightarrow> 'a list \<Rightarrow> 'a list" where
  "lastn n xs = drop (length xs - n) xs"

lemma lastn_snoc_full:
  "length c = n \<Longrightarrow> 0 < n \<Longrightarrow> lastn n (c @ [x]) = tl c @ [x]"
  by (cases c) (simp_all add: lastn_def)

lemma lastn_snoc_short:
  "length c < n \<Longrightarrow> lastn n (c @ [x]) = c @ [x]"
  by (simp add: lastn_def)

lemma lastn_lastn_append:
  "lastn n (lastn n ys @ zs) = lastn n (ys @ zs)"
proof (cases "n \<le> length ys")
  case True
  then have "length zs + (length ys - n) = length ys + length zs - n" by simp
  with True show ?thesis by (simp add: lastn_def)
next
  case False
  then show ?thesis by (simp add: lastn_def)
qed

lemma size_rb_new: "size_rb (newRingBuffer n) = n"
  by (simp add: newRingBuffer_def)

lemma Enqueue_contents:
  assumes "rb_inv rb"
  shows "\<exists>rb'. Enqueue x rb = Inr (count_rb rb \<noteq> size_rb rb, rb') \<and> rb_inv rb' \<and>
           size_rb rb' = size_rb rb \<and>
           contents rb' = lastn (size_rb rb) (contents rb @ [Some x])"
proof (cases "count_rb rb = size_rb rb")
  case True
  from assms have "0 < size_rb rb" by (simp add: rb_inv_def)
  with True Enqueue_full [OF assms True, of x] show ?thesis
    by (auto simp: lastn_snoc_full length_contents)
next
  case False
  from assms False have "count_rb rb < size_rb rb" by (simp add: rb_inv_def)
  with False Enqueue_not_full [OF assms False, of x] show ?thesis
    by (auto simp: lastn_snoc_short length_contents)
qed

lemma enqueue_all_contents:
  "rb_inv rb \<Longrightarrow>
   \<exists>rb'. enqueue_all xs rb = Inr rb' \<and> rb_inv rb' \<and> size_rb rb' = size_rb rb \<and>
     contents rb' = lastn (size_rb rb) (contents rb @ map Some xs)"
proof (induction xs arbitrary: rb)
  case Nil
  then have "length (contents rb) \<le> size_rb rb"
    by (simp add: length_contents rb_inv_def)
  with Nil show ?case by (simp add: lastn_def)
next
  case (Cons x xs)
  from Enqueue_contents [OF Cons.prems, of x] obtain rb1 where
    E: "Enqueue x rb = Inr (count_rb rb \<noteq> size_rb rb, rb1)" and I: "rb_inv rb1"
    and S: "size_rb rb1 = size_rb rb"
    and C: "contents rb1 = lastn (size_rb rb) (contents rb @ [Some x])"
    by blast
  from Cons.IH [OF I] obtain rb' where
    "enqueue_all xs rb1 = Inr rb'" "rb_inv rb'" "size_rb rb' = size_rb rb1"
    "contents rb' = lastn (size_rb rb1) (contents rb1 @ map Some xs)"
    by blast
  with E S C show ?case
    by (simp add: lastn_lastn_append)
qed

lemma dequeue_all_contents:
  "rb_inv rb \<Longrightarrow> dequeue_all rb = Inr (contents rb)"
proof (induction "count_rb rb" arbitrary: rb)
  case 0
  then have "contents rb = []" by (simp add: contents_def)
  moreover from 0 have "Dequeue rb = Inr ((None, False), rb)" by (simp add: Dequeue_empty)
  ultimately show ?case by (subst dequeue_all.simps) simp
next
  case (Suc n)
  then have ne: "count_rb rb \<noteq> 0" by simp
  from Dequeue_nonempty [OF Suc.prems ne] obtain rb' where
    D: "Dequeue rb = Inr ((hd (contents rb), True), rb')" and I: "rb_inv rb'"
    and C: "contents rb' = tl (contents rb)"
    by blast
  from C Suc.hyps(2) have "n = count_rb rb'"
    using length_contents [of rb'] length_contents [of rb] by simp
  from Suc.hyps(1) [OF this I] have "dequeue_all rb' = Inr (tl (contents rb))"
    using C by simp
  moreover have "contents rb \<noteq> []"
    using ne length_contents [of rb] by auto
  ultimately show ?case using D by (subst dequeue_all.simps) simp
qed

text \<open>
  Claim C2. For every ring buffer of capacity \<open>C\<close> (in any state that \<^verbatim>\<open>Enqueue\<close> and
  \<^verbatim>\<open>Dequeue\<close> can bring a buffer made by \<^verbatim>\<open>newRingBuffer\<close> with a positive size into) and every
  \<open>k \<ge> 1\<close>: enqueueing \<open>C + k\<close> distinct items \<open>xs\<close> succeeds, and dequeueing until the buffer
  reports empty then yields exactly the last \<open>C\<close> items \<open>drop k xs\<close> in their original order;
  none of the oldest \<open>k\<close> items \<open>take k xs\<close> is among them.
\<close>

theorem ringBuffer_keeps_last_C:
  assumes "rb_inv rb" "size_rb rb = C" "1 \<le> k" "length xs = C + k" "distinct xs"
  shows "\<exists>rb'. enqueue_all xs rb = Inr rb' \<and>
           dequeue_all rb' = Inr (map Some (drop k xs)) \<and>
           length (drop k xs) = C \<and>
           set (take k xs) \<inter> set (drop k xs) = {}"
proof -
  from enqueue_all_contents [OF assms(1), of xs] assms(2) obtain rb' where
    E: "enqueue_all xs rb = Inr rb'" and I: "rb_inv rb'"
    and Cn: "contents rb' = lastn C (contents rb @ map Some xs)"
    by auto
  have "lastn C (contents rb @ map Some xs) = map Some (drop k xs)"
    using assms(4) by (simp add: lastn_def drop_map)
  with Cn dequeue_all_contents [OF I] have D: "dequeue_all rb' = Inr (map Some (drop k xs))"
    by simp
  have "set (take k xs) \<inter> set (drop k xs) = {}"
    using assms(5) distinct_append [of "take k xs" "drop k xs"] by simp
  with E D assms(4) show ?thesis by simp
qed

theorem ringBuffer_keeps_last_C_witness:
  "rb_inv (newRingBuffer 3 :: nat ringBuffer) \<and>
   enqueue_all [1, 2, 3, 4, 5 :: nat] (newRingBuffer 3) =
     Inr \<lparr>buffer = [Some 4, Some 5, Some 3], size_rb = 3, head = 2, tail = 2, count_rb = 3\<rparr> \<and>
   dequeue_all \<lparr>buffer = [Some 4, Some 5, Some (3::nat)], size_rb = 3, head = 2, tail = 2, count_rb = 3\<rparr> =
     Inr [Some 3, Some 4, Some 5]"
proof -
  have inv: "rb_inv (newRingBuffer 3 :: nat ringBuffer)"
    by (simp add: rb_inv_def newRingBuffer_def)
  have sz: "size_rb (newRingBuffer 3 :: nat ringBuffer) = 3"
    by (simp add: newRingBuffer_def)
  have "\<exists>rb'. enqueue_all [1, 2, 3, 4, 5 :: nat] (newRingBuffer 3) = Inr rb' \<and>
           dequeue_all rb' = Inr (map Some (drop 2 [1, 2, 3, 4, 5 :: nat])) \<and>
           length (drop 2 [1, 2, 3, 4, 5 :: nat]) = 3 \<and>
           set (take 2 [1, 2, 3, 4, 5 :: nat]) \<inter> set (drop 2 [1, 2, 3, 4, 5 :: nat]) = {}"
    using inv sz by (rule ringBuffer_keeps_last_C) simp_all
  moreover have "enqueue_all [1, 2, 3, 4, 5 :: nat] (newRingBuffer 3) =
     Inr \<lparr>buffer = [Some 4, Some 5, Some 3], size_rb = 3, head = 2, tail = 2, count_rb = 3\<rparr>"
    by code_simp
  ultimately show ?thesis using inv by simp
qed

section \<open>metrics.go: the aggregator\<close>

text \<open>
  \<^verbatim>\<open>time.Duration\<close> is an \<^verbatim>\<open>int64\<close> and the counters are \<^verbatim>\<open>atomic.Int64\<close>: 64-bit words, whose
  addition wraps. \<^verbatim>\<open>queryDurations\<close> is a \<^verbatim>\<open>sync.Map\<close> from the query type to the slice of its
  durations: an association list with one entry per key, read by \<^verbatim>\<open>Load\<close>, written by
  \<^verbatim>\<open>Store\<close> and walked by \<^verbatim>\<open>Range\<close>.
\<close>

type_synonym duration = "64 word"

record dbMetrics =
  dbname :: string
  queryDurations :: "(string \<times> duration list) list"
  affectedRows :: "64 word"
  totalQueries :: "64 word"
  slowQueries :: "64 word"
  errors :: "64 word"

definition Load :: "('k \<times> 'v) list \<Rightarrow> 'k \<Rightarrow> 'v option" where
  "Load kvs k = map_of kvs k"

fun Store :: "'k \<Rightarrow> 'v \<Rightarrow> ('k \<times> 'v) list \<Rightarrow> ('k \<times> 'v) list" where
  "Store k v [] = [(k, v)]"
| "Store k v ((k', v') # kvs) = (if k' = k then (k, v) # kvs else (k', v') # Store k v kvs)"

definition newDBMetrics :: "string \<Rightarrow> dbMetrics" where
  "newDBMetrics name =
     \<lparr>dbname = name, queryDurations = [], affectedRows = 0, totalQueries = 0,
      slowQueries = 0, errors = 0\<rparr>"

text \<open>
  The result of \<^verbatim>\<open>GetDBMetrics\<close>: the entry \<^verbatim>\<open>"query_stats"\<close> maps each query type to its
  \<^verbatim>\<open>"count"\<close>, \<^verbatim>\<open>"total_time"\<close> and \<^verbatim>\<open>"average_time"\<close>.
\<close>

record query_stat =
  count :: nat
  total_time :: duration
  average_time :: duration

record metrics_snapshot =
  db_name :: string
  query_stats :: "(string \<times> query_stat) list"
  total_affected_rows :: "64 word"
  total_queries :: "64 word"
  slow_queries :: "64 word"
  total_errors :: "64 word"

text \<open>
  Go's \<^verbatim>\<open>/\<close> on \<^verbatim>\<open>int64\<close> truncates towards zero; by zero it panics, which the caller below
  checks first.
\<close>

definition div_int64 :: "64 word \<Rightarrow> 64 word \<Rightarrow> 64 word" where
  "div_int64 a b = word_of_int (sint a sdiv sint b)"

text \<open>The loop \<^verbatim>\<open>for _, d := range durations { total += d }\<close>.\<close>

fun total_of :: "duration list \<Rightarrow> duration \<Rightarrow> duration" where
  "total_of [] acc = acc"
| "total_of (d # ds) acc = total_of ds (acc + d)"

text \<open>
  The body of the \<^verbatim>\<open>Range\<close> callback, entry by entry. \<^verbatim>\<open>len(durations)\<close> is an \<^verbatim>\<open>int\<close> between
  0 and \<open>2^63 - 1\<close>, so the divisor \<^verbatim>\<open>time.Duration(len(durations))\<close> is zero exactly when the
  slice is empty, and then the division panics.
\<close>

fun collect_stats :: "(string \<times> duration list) list \<Rightarrow> panic + (string \<times> query_stat) list" where
  "collect_stats [] = Inr []"
| "collect_stats ((key, durations) # rest) =
     (let total_d = total_of durations 0 in
      if length durations = 0 then Inl DivideByZero
      else bind_p (collect_stats rest) (\<lambda>queryStats.
        Inr ((key, \<lparr>count = length durations, total_time = total_d,
                    average_time = div_int64 total_d (word_of_nat (length durations))\<rparr>) # queryStats)))"

definition GetDBMetrics :: "dbMetrics \<Rightarrow> panic + metrics_snapshot" where
  "GetDBMetrics m =
     bind_p (collect_stats (queryDurations m)) (\<lambda>queryStats.
       Inr \<lparr>db_name = dbname m, query_stats = queryStats,
            total_affected_rows = affectedRows m, total_queries = totalQueries m,
            slow_queries = slowQueries m, total_errors = errors m\<rparr>)"

definition ResetDBMetrics :: "dbMetrics \<Rightarrow> dbMetrics" where
  "ResetDBMetrics m =
     m\<lparr>queryDurations := [], affectedRows := 0, totalQueries := 0, slowQueries := 0, errors := 0\<rparr>"

definition RecordQueryDuration :: "string \<Rightarrow> duration \<Rightarrow> dbMetrics \<Rightarrow> dbMetrics" where
  "RecordQueryDuration queryType d m =
     (let queryType = (if queryType = [] then ''unknown'' else queryType);
          m1 = m\<lparr>totalQueries := totalQueries m + 1\<rparr>
      in case Load (queryDurations m1) queryType of
           Some durs \<Rightarrow> m1\<lparr>queryDurations := Store queryType (durs @ [d]) (queryDurations m1)\<rparr>
         | None \<Rightarrow> m1\<lparr>queryDurations := Store queryType [d] (queryDurations m1)\<rparr>)"

definition RecordAffectedRows :: "64 word \<Rightarrow> dbMetrics \<Rightarrow> dbMetrics" where
  "RecordAffectedRows rows m = m\<lparr>affectedRows := affectedRows m + rows\<rparr>"

definition RecordError :: "dbMetrics \<Rightarrow> dbMetrics" where
  "RecordError m = m\<lparr>errors := errors m + 1\<rparr>"

definition RecordSlowQuery :: "dbMetrics \<Rightarrow> dbMetrics" where
  "RecordSlowQuery m = m\<lparr>slowQueries := slowQueries m + 1\<rparr>"

section \<open>metrics.go: the asynchronous pipeline\<close>

text \<open>
  \<^verbatim>\<open>asyncDBMetrics\<close> embeds the aggregator and owns the ring buffer of closures
  \<^verbatim>\<open>func(*dbMetrics)\<close>, here functions from the aggregator's state to its new state.
  \<^verbatim>\<open>stopChan\<close> carries no value and is only ever closed. \<^verbatim>\<open>droppedMetrics\<close> is an
  \<^verbatim>\<open>atomic.Uint64\<close>.
\<close>

record asyncDBMetrics =
  buffer_am :: "(dbMetrics \<Rightarrow> dbMetrics) ringBuffer"
  stopChan_closed :: bool
  dbMetrics_am :: dbMetrics
  droppedMetrics :: "64 word"

definition newAsyncDBMetrics :: "string \<Rightarrow> int \<Rightarrow> asyncDBMetrics" where
  "newAsyncDBMetrics name bufferSize =
     (let defaultBufferSize = 1000;
          bufferSize = (if bufferSize \<le> 0 then defaultBufferSize else bufferSize)
      in \<lparr>buffer_am = newRingBuffer (nat bufferSize), stopChan_closed = False,
          dbMetrics_am = newDBMetrics name, droppedMetrics = 0\<rparr>)"

text \<open>
  One iteration of the consumer loop of \<^verbatim>\<open>start\<close>: it returns whether the loop goes on, and the
  new state. Calling a \<^verbatim>\<open>nil\<close> closure panics.
\<close>

definition consume_step :: "asyncDBMetrics \<Rightarrow> panic + (bool \<times> asyncDBMetrics)" where
  "consume_step am =
     (if stopChan_closed am then Inr (False, am)
      else bind_p (Dequeue (buffer_am am)) (\<lambda>((metricFunc, ok), rb').
        if ok then
          (case metricFunc of
             None \<Rightarrow> Inl NilDereference
           | Some f \<Rightarrow> Inr (True, am\<lparr>buffer_am := rb', dbMetrics_am := f (dbMetrics_am am)\<rparr>))
        else Inr (True, am\<lparr>buffer_am := rb'\<rparr>)))"

definition Stop :: "asyncDBMetrics \<Rightarrow> panic + asyncDBMetrics" where
  "Stop am = (if stopChan_closed am then Inl CloseOfClosedChannel else Inr (am\<lparr>stopChan_closed := True\<rparr>))"

definition recordMetric :: "(dbMetrics \<Rightarrow> dbMetrics) \<Rightarrow> asyncDBMetrics \<Rightarrow> panic + asyncDBMetrics" where
  "recordMetric metricFunc am =
     bind_p (Enqueue metricFunc (buffer_am am)) (\<lambda>(ok, rb').
       if \<not> ok then Inr (am\<lparr>buffer_am := rb', droppedMetrics := droppedMetrics am + 1\<rparr>)
       else Inr (am\<lparr>buffer_am := rb'\<rparr>))"

definition asyncRecordQueryDuration :: "string \<Rightarrow> duration \<Rightarrow> asyncDBMetrics \<Rightarrow> panic + asyncDBMetrics" where
  "asyncRecordQueryDuration queryType d am = recordMetric (RecordQueryDuration queryType d) am"

definition asyncRecordError :: "asyncDBMetrics \<Rightarrow> panic + asyncDBMetrics" where
  "asyncRecordError am = recordMetric RecordError am"

definition asyncRecordSlowQuery :: "asyncDBMetrics \<Rightarrow> panic + asyncDBMetrics" where
  "asyncRecordSlowQuery am = recordMetric RecordSlowQuery am"

definition GetDroppedMetricsCount :: "asyncDBMetrics \<Rightarrow> 64 word" where
  "GetDroppedMetricsCount am = droppedMetrics am"


section \<open>The aggregator's snapshot\<close>

text \<open>
  A history of the aggregator is the list of the calls made on it since \<^verbatim>\<open>newDBMetrics\<close>, oldest
  first. \<open>recorded key ops\<close> is the list of the durations recorded under \<open>key\<close> since the last
  reset (an empty query type is recorded under \<^verbatim>\<open>"unknown"\<close>).
\<close>

datatype metric_op =
  OpQueryDuration string duration | OpAffectedRows "64 word" | OpError | OpSlowQuery | OpReset

fun apply_op :: "dbMetrics \<Rightarrow> metric_op \<Rightarrow> dbMetrics" where
  "apply_op m (OpQueryDuration queryType d) = RecordQueryDuration queryType d m"
| "apply_op m (OpAffectedRows rows) = RecordAffectedRows rows m"
| "apply_op m OpError = RecordError m"
| "apply_op m OpSlowQuery = RecordSlowQuery m"
| "apply_op m OpReset = ResetDBMetrics m"

definition run_ops :: "metric_op list \<Rightarrow> dbMetrics \<Rightarrow> dbMetrics" where
  "run_ops ops m = foldl apply_op m ops"

fun record_op :: "string \<Rightarrow> duration list \<Rightarrow> metric_op \<Rightarrow> duration list" where
  "record_op key ds (OpQueryDuration queryType d) =
     (if (if queryType = [] then ''unknown'' else queryType) = key then ds @ [d] else ds)"
| "record_op key ds OpReset = []"
| "record_op key ds _ = ds"

definition recorded :: "string \<Rightarrow> metric_op list \<Rightarrow> duration list" where
  "recorded key ops = foldl (record_op key) [] ops"

definition stat_of :: "duration list \<Rightarrow> query_stat" where
  "stat_of ds =
     \<lparr>count = length ds, total_time = total_of ds 0,
      average_time = div_int64 (total_of ds 0) (word_of_nat (length ds))\<rparr>"

lemma Load_Store: "Load (Store k v kvs) k' = (if k' = k then Some v else Load kvs k')"
  by (induction kvs) (auto simp: Load_def)

lemma Load_Nil: "Load [] k = None"
  by (simp add: Load_def)

lemma set_Store: "set (Store k v kvs) \<subseteq> insert (k, v) (set kvs)"
  by (induction kvs) (auto split: if_splits)

lemma total_of_sum: "total_of ds acc = acc + sum_list ds"
  by (induction ds arbitrary: acc) (simp_all add: add.assoc)

lemma collect_stats_nonempty:
  "\<forall>(k, ds) \<in> set kvs. ds \<noteq> [] \<Longrightarrow>
   collect_stats kvs = Inr (map (\<lambda>(k, ds). (k, stat_of ds)) kvs)"
  by (induction kvs) (auto simp: stat_of_def Let_def)

definition durations_ok :: "dbMetrics \<Rightarrow> bool" where
  "durations_ok m \<longleftrightarrow> list_all (\<lambda>(k, ds). ds \<noteq> []) (queryDurations m)"

lemma durations_ok_Store:
  assumes "list_all (\<lambda>(k, ds). ds \<noteq> []) kvs" "v \<noteq> []"
  shows "list_all (\<lambda>(k, ds). ds \<noteq> []) (Store key v kvs)"
  using assms set_Store [of key v kvs] by (auto simp: list_all_iff)

lemma durations_ok_apply_op: "durations_ok m \<Longrightarrow> durations_ok (apply_op m op)"
  by (cases op)
    (auto simp: durations_ok_def RecordQueryDuration_def RecordAffectedRows_def RecordError_def
      RecordSlowQuery_def ResetDBMetrics_def Let_def durations_ok_Store split: option.splits)

lemma Load_apply_op:
  assumes "Load (queryDurations m) key = (if ds = [] then None else Some ds)"
  shows "Load (queryDurations (apply_op m op)) key =
           (if record_op key ds op = [] then None else Some (record_op key ds op))"
  using assms
  by (cases op)
    (auto simp: RecordQueryDuration_def RecordAffectedRows_def RecordError_def
      RecordSlowQuery_def ResetDBMetrics_def Let_def Load_Store Load_Nil split: option.splits if_splits)

lemma run_ops_recorded:
  "durations_ok (run_ops ops (newDBMetrics name)) \<and>
   Load (queryDurations (run_ops ops (newDBMetrics name))) key =
     (if recorded key ops = [] then None else Some (recorded key ops))"
proof (induction ops rule: rev_induct)
  case Nil
  show ?case
    by (simp add: run_ops_def recorded_def newDBMetrics_def durations_ok_def Load_def)
next
  case (snoc op ops)
  let ?m = "run_ops ops (newDBMetrics name)"
  from snoc have ok: "durations_ok ?m"
    and L: "Load (queryDurations ?m) key =
      (if recorded key ops = [] then None else Some (recorded key ops))"
    by simp_all
  have step: "run_ops (ops @ [op]) (newDBMetrics name) = apply_op ?m op"
    by (simp add: run_ops_def)
  have rec: "recorded key (ops @ [op]) = record_op key (recorded key ops) op"
    by (simp add: recorded_def)
  from ok have "durations_ok (apply_op ?m op)" by (rule durations_ok_apply_op)
  moreover note Load_apply_op [OF L, of op]
  ultimately show ?case by (simp only: step rec)
qed

lemma GetDBMetrics_ok:
  assumes "durations_ok m"
  shows "\<exists>snap. GetDBMetrics m = Inr snap \<and>
           map_of (query_stats snap) = map_option stat_of \<circ> Load (queryDurations m)"
proof -
  from assms have "\<forall>(k, ds) \<in> set (queryDurations m). ds \<noteq> []"
    by (simp add: durations_ok_def list_all_iff)
  then have "collect_stats (queryDurations m) =
      Inr (map (\<lambda>(k, ds). (k, stat_of ds)) (queryDurations m))"
    by (rule collect_stats_nonempty)
  then show ?thesis
    by (auto simp: GetDBMetrics_def map_of_map Load_def)
qed

text \<open>
  Claim C6. After any history of calls, \<^verbatim>\<open>GetDBMetrics\<close> returns (the division never panics),
  and for every query type present in the snapshot: its count is the number of durations
  recorded for that type and is at least 1, its total time is their (wrapping) sum, and its
  average time is the total divided by the count.
\<close>

theorem snapshot_average:
  "\<exists>snap. GetDBMetrics (run_ops ops (newDBMetrics name)) = Inr snap \<and>
     (\<forall>key st. map_of (query_stats snap) key = Some st \<longrightarrow>
        count st = length (recorded key ops) \<and> 1 \<le> count st \<and>
        total_time st = sum_list (recorded key ops) \<and>
        average_time st = div_int64 (total_time st) (word_of_nat (count st)))"
proof -
  let ?m = "run_ops ops (newDBMetrics name)"
  from run_ops_recorded [of ops name] have ok: "durations_ok ?m"
    and L: "\<And>key. Load (queryDurations ?m) key =
      (if recorded key ops = [] then None else Some (recorded key ops))"
    by simp_all
  from GetDBMetrics_ok [OF ok] obtain snap where
    G: "GetDBMetrics ?m = Inr snap"
    and M: "map_of (query_stats snap) = map_option stat_of \<circ> Load (queryDurations ?m)"
    by blast
  have "count st = length (recorded key ops) \<and> 1 \<le> count st \<and>
        total_time st = sum_list (recorded key ops) \<and>
        average_time st = div_int64 (total_time st) (word_of_nat (count st))"
    if "map_of (query_stats snap) key = Some st" for key st
  proof -
    from that M L [of key] have ne: "recorded key ops \<noteq> []" and st: "st = stat_of (recorded key ops)"
      by (auto split: if_splits)
    from ne have "1 \<le> length (recorded key ops)" by (cases "recorded key ops") simp_all
    with st show ?thesis by (simp add: stat_of_def total_of_sum)
  qed
  with G show ?thesis by blast
qed

theorem snapshot_average_witness:
  "GetDBMetrics (run_ops [OpQueryDuration ''q'' 2, OpReset, OpQueryDuration ''q'' (-7),
       OpQueryDuration ''q'' 2, OpError, OpQueryDuration [] 5] (newDBMetrics ''db'')) =
     Inr \<lparr>db_name = ''db'',
          query_stats = [(''q'', \<lparr>count = 2, total_time = - 5, average_time = - 2\<rparr>),
                         (''unknown'', \<lparr>count = 1, total_time = 5, average_time = 5\<rparr>)],
          total_affected_rows = 0, total_queries = 3, slow_queries = 0, total_errors = 1\<rparr> \<and>
   recorded ''q'' [OpQueryDuration ''q'' 2, OpReset, OpQueryDuration ''q'' (-7),
       OpQueryDuration ''q'' 2, OpError, OpQueryDuration [] 5] = [- 7, 2]"
proof -
  let ?ops = "[OpQueryDuration ''q'' 2, OpReset, OpQueryDuration ''q'' (-7),
       OpQueryDuration ''q'' 2, OpError, OpQueryDuration [] 5]"
  let ?snap = "\<lparr>db_name = ''db'',
          query_stats = [(''q'', \<lparr>count = 2, total_time = - 5, average_time = - 2\<rparr>),
                         (''unknown'', \<lparr>count = 1, total_time = 5, average_time = 5\<rparr>)],
          total_affected_rows = 0, total_queries = 3, slow_queries = 0, total_errors = 1\<rparr>"
  have G: "GetDBMetrics (run_ops ?ops (newDBMetrics ''db'')) = Inr ?snap"
    by code_simp
  have look: "map_of (query_stats ?snap) ''q'' = Some \<lparr>count = 2, total_time = - 5, average_time = - 2\<rparr>"
    by simp
  from snapshot_average [of ?ops "''db''"] G look
  have "count \<lparr>count = 2, total_time = - 5 :: duration, average_time = - 2 :: duration\<rparr>
      = length (recorded ''q'' ?ops)"
    by (metis sum.inject(2))
  moreover have "recorded ''q'' ?ops = [- 7, 2]"
    by (simp add: recorded_def)
  ultimately show ?thesis using G by simp
qed


section \<open>Recording into a full buffer\<close>

text \<open>
  The buffer of a pipeline satisfies the ring buffer's invariant and holds no \<^verbatim>\<open>nil\<close> closure
  among its queued items, from \<^verbatim>\<open>newAsyncDBMetrics\<close> on: \<^verbatim>\<open>recordMetric\<close> and the consumer's
  iterations return without a panic and keep both.
\<close>

lemma newAsyncDBMetrics_inv:
  "rb_inv (buffer_am (newAsyncDBMetrics name bufferSize)) \<and>
   None \<notin> set (contents (buffer_am (newAsyncDBMetrics name bufferSize)))"
  by (simp add: newAsyncDBMetrics_def Let_def rb_inv_new contents_new)

lemma recordMetric_inv:
  assumes "rb_inv (buffer_am am)" "None \<notin> set (contents (buffer_am am))"
  shows "\<exists>am'. recordMetric f am = Inr am' \<and> rb_inv (buffer_am am') \<and>
           None \<notin> set (contents (buffer_am am'))"
proof -
  from Enqueue_contents [OF assms(1), of f] obtain rb' where
    E: "Enqueue f (buffer_am am) = Inr (count_rb (buffer_am am) \<noteq> size_rb (buffer_am am), rb')"
    and I: "rb_inv rb'"
    and C: "contents rb' = lastn (size_rb (buffer_am am)) (contents (buffer_am am) @ [Some f])"
    by blast
  have "set (contents rb') \<subseteq> set (contents (buffer_am am) @ [Some f])"
    unfolding C lastn_def by (rule set_drop_subset)
  with assms(2) have "None \<notin> set (contents rb')" by auto
  with E I show ?thesis by (auto simp: recordMetric_def)
qed

lemma consume_step_inv:
  assumes "rb_inv (buffer_am am)" "None \<notin> set (contents (buffer_am am))"
  shows "\<exists>go_on am'. consume_step am = Inr (go_on, am') \<and> rb_inv (buffer_am am') \<and>
           None \<notin> set (contents (buffer_am am'))"
proof (cases "stopChan_closed am")
  case True
  with assms show ?thesis by (auto simp: consume_step_def)
next
  case False
  show ?thesis
  proof (cases "count_rb (buffer_am am) = 0")
    case True
    with False assms show ?thesis by (auto simp: consume_step_def Dequeue_empty)
  next
    case ne: False
    from Dequeue_nonempty [OF assms(1) ne] obtain rb' where
      D: "Dequeue (buffer_am am) = Inr ((hd (contents (buffer_am am)), True), rb')"
      and I: "rb_inv rb'" and C: "contents rb' = tl (contents (buffer_am am))"
      by blast
    from ne have nonempty: "contents (buffer_am am) \<noteq> []"
      using length_contents [of "buffer_am am"] by auto
    with assms(2) obtain f where f: "hd (contents (buffer_am am)) = Some f"
      by (cases "hd (contents (buffer_am am))") (auto dest: hd_in_set)
    from C assms(2) nonempty have "None \<notin> set (contents rb')"
      by (auto dest: list.set_sel(2))
    with False D f I show ?thesis by (auto simp: consume_step_def)
  qed
qed

text \<open>
  Claim C1, as the code has it. When \<^verbatim>\<open>recordMetric(f)\<close> is called on a full ring buffer,
  \<^verbatim>\<open>Enqueue\<close> returns \<^verbatim>\<open>false\<close> and the dropped counter grows by one; the closure lost is the
  oldest one queued, while \<open>f\<close> itself is stored as the newest item and is dequeued after the
  remaining older ones.
\<close>

theorem recordMetric_full_evicts_oldest:
  assumes "rb_inv (buffer_am am)" "count_rb (buffer_am am) = size_rb (buffer_am am)"
  shows "\<exists>rb'. Enqueue f (buffer_am am) = Inr (False, rb') \<and>
           recordMetric f am =
             Inr (am\<lparr>buffer_am := rb', droppedMetrics := droppedMetrics am + 1\<rparr>) \<and>
           contents rb' = tl (contents (buffer_am am)) @ [Some f] \<and>
           dequeue_all rb' = Inr (tl (contents (buffer_am am)) @ [Some f])"
proof -
  from Enqueue_full [OF assms, of f] obtain rb' where
    E: "Enqueue f (buffer_am am) = Inr (False, rb')" and I: "rb_inv rb'"
    and C: "contents rb' = tl (contents (buffer_am am)) @ [Some f]"
    by blast
  from E have "recordMetric f am =
      Inr (am\<lparr>buffer_am := rb', droppedMetrics := droppedMetrics am + 1\<rparr>)"
    by (simp add: recordMetric_def)
  moreover from dequeue_all_contents [OF I] C
  have "dequeue_all rb' = Inr (tl (contents (buffer_am am)) @ [Some f])" by simp
  ultimately show ?thesis using E C by blast
qed

theorem recordMetric_full_evicts_oldest_witness:
  "\<exists>rb'. Enqueue RecordSlowQuery
       \<lparr>buffer = [Some RecordError, Some RecordError], size_rb = 2, head = 0, tail = 0, count_rb = 2\<rparr>
         = Inr (False, rb') \<and>
     recordMetric RecordSlowQuery
       \<lparr>buffer_am = \<lparr>buffer = [Some RecordError, Some RecordError], size_rb = 2, head = 0,
                      tail = 0, count_rb = 2\<rparr>,
        stopChan_closed = False, dbMetrics_am = newDBMetrics ''db'', droppedMetrics = 0\<rparr>
         = Inr \<lparr>buffer_am = rb', stopChan_closed = False, dbMetrics_am = newDBMetrics ''db'',
                droppedMetrics = 1\<rparr> \<and>
     dequeue_all rb' = Inr [Some RecordError, Some RecordSlowQuery]"
proof -
  let ?rb = "\<lparr>buffer = [Some RecordError, Some RecordError], size_rb = 2, head = 0, tail = 0,
              count_rb = 2\<rparr>"
  let ?am = "\<lparr>buffer_am = ?rb, stopChan_closed = False, dbMetrics_am = newDBMetrics ''db'',
              droppedMetrics = 0\<rparr>"
  have inv: "rb_inv (buffer_am ?am)" by (simp add: rb_inv_def)
  have full: "count_rb (buffer_am ?am) = size_rb (buffer_am ?am)" by simp
  have c: "contents ?rb = [Some RecordError, Some RecordError]"
    by (simp add: contents_def upt_rec)
  from recordMetric_full_evicts_oldest [OF inv full, of RecordSlowQuery] c
  have "\<exists>rb'. Enqueue RecordSlowQuery ?rb = Inr (False, rb') \<and>
     recordMetric RecordSlowQuery ?am =
       Inr \<lparr>buffer_am = rb', stopChan_closed = False, dbMetrics_am = newDBMetrics ''db'',
                droppedMetrics = 1\<rparr> \<and>
     contents rb' = [Some RecordError, Some RecordSlowQuery] \<and>
     dequeue_all rb' = Inr [Some RecordError, Some RecordSlowQuery]"
    by simp
  then show ?thesis by blast
qed

text \<open>
  The claim that the closure recorded into a full buffer is discarded fails: with capacity 1,
  \<^verbatim>\<open>RecordError()\<close> fills the buffer, \<^verbatim>\<open>RecordSlowQuery()\<close> is then counted as dropped, and the
  consumer's next iteration applies the slow-query closure, not the error closure.
\<close>

theorem recordMetric_full_keeps_new_counterexample:
  "asyncRecordError (newAsyncDBMetrics ''db'' 1) =
     Inr \<lparr>buffer_am = \<lparr>buffer = [Some RecordError], size_rb = 1, head = 0, tail = 0, count_rb = 1\<rparr>,
          stopChan_closed = False, dbMetrics_am = newDBMetrics ''db'', droppedMetrics = 0\<rparr> \<and>
   asyncRecordSlowQuery
     \<lparr>buffer_am = \<lparr>buffer = [Some RecordError], size_rb = 1, head = 0, tail = 0, count_rb = 1\<rparr>,
      stopChan_closed = False, dbMetrics_am = newDBMetrics ''db'', droppedMetrics = 0\<rparr> =
     Inr \<lparr>buffer_am = \<lparr>buffer = [Some RecordSlowQuery], size_rb = 1, head = 0, tail = 0, count_rb = 1\<rparr>,
          stopChan_closed = False, dbMetrics_am = newDBMetrics ''db'', droppedMetrics = 1\<rparr> \<and>
   consume_step
     \<lparr>buffer_am = \<lparr>buffer = [Some RecordSlowQuery], size_rb = 1, head = 0, tail = 0, count_rb = 1\<rparr>,
      stopChan_closed = False, dbMetrics_am = newDBMetrics ''db'', droppedMetrics = 1\<rparr> =
     Inr (True,
       \<lparr>buffer_am = \<lparr>buffer = [Some RecordSlowQuery], size_rb = 1, head = 0, tail = 0, count_rb = 0\<rparr>,
        stopChan_closed = False,
        dbMetrics_am = \<lparr>dbname = ''db'', queryDurations = [], affectedRows = 0, totalQueries = 0,
                        slowQueries = 1, errors = 0\<rparr>,
        droppedMetrics = 1\<rparr>)"
  by (simp add: asyncRecordError_def asyncRecordSlowQuery_def recordMetric_def newAsyncDBMetrics_def
      newRingBuffer_def Enqueue_def Dequeue_def consume_step_def newDBMetrics_def
      RecordSlowQuery_def Let_def)

section \<open>The sharded cache\<close>

subsection \<open>The hash\<close>

text \<open>
  Modelled from the spec: \<^verbatim>\<open>murmur3.Sum32\<close> of \<^verbatim>\<open>github.com/spaolacci/murmur3\<close>, which the cache
  imports and whose source is not part of the repository. The spec asks for a fast,
  deterministic non-cryptographic hash and names Murmur3; this is the 32-bit Murmur3 with
  seed 0 over the bytes of the key: four-byte little-endian blocks, the tail of one
  to three bytes, and the final mix.
\<close>

definition c1_32 :: "32 word" where "c1_32 = 0xcc9e2d51"
definition c2_32 :: "32 word" where "c2_32 = 0x1b873593"

definition mix_k1 :: "32 word \<Rightarrow> 32 word" where
  "mix_k1 k1 = word_rotl 15 (k1 * c1_32) * c2_32"

fun murmur3_blocks :: "string \<Rightarrow> 32 word \<Rightarrow> 32 word" where
  "murmur3_blocks (b0 # b1 # b2 # b3 # rest) h1 =
     (let k1 = of_char b0 OR push_bit 8 (of_char b1) OR push_bit 16 (of_char b2)
               OR push_bit 24 (of_char b3);
          h1 = h1 XOR mix_k1 k1;
          h1 = word_rotl 13 h1;
          h1 = h1 * 4 + h1 + 0xe6546b64
      in murmur3_blocks rest h1)"
| "murmur3_blocks [b0, b1, b2] h1 =
     h1 XOR mix_k1 (push_bit 16 (of_char b2) XOR push_bit 8 (of_char b1) XOR of_char b0)"
| "murmur3_blocks [b0, b1] h1 = h1 XOR mix_k1 (push_bit 8 (of_char b1) XOR of_char b0)"
| "murmur3_blocks [b0] h1 = h1 XOR mix_k1 (of_char b0)"
| "murmur3_blocks [] h1 = h1"

definition fmix32 :: "32 word \<Rightarrow> 32 word" where
  "fmix32 h =
     (let h = h XOR drop_bit 16 h;
          h = h * 0x85ebca6b;
          h = h XOR drop_bit 13 h;
          h = h * 0xc2b2ae35
      in h XOR drop_bit 16 h)"

definition murmur3_Sum32 :: "string \<Rightarrow> 32 word" where
  "murmur3_Sum32 data = fmix32 (murmur3_blocks data 0 XOR word_of_nat (length data))"


subsection \<open>The LRU tier\<close>

text \<open>
  Modelled from the spec: the bounded LRU of \<^verbatim>\<open>github.com/hashicorp/golang-lru/v2\<close>, which the
  cache imports and whose source is not part of the repository. The spec describes it as a
  bounded least-recently-used tier that may evict entries. The entries are kept most recently
  used first. \<^verbatim>\<open>New\<close> refuses a size that is not positive; \<^verbatim>\<open>Get\<close> moves the entry it finds to
  the front; \<^verbatim>\<open>Add\<close> updates an entry in place and moves it to the front, or adds a new one at
  the front and evicts the oldest entry when the size is exceeded; \<^verbatim>\<open>Remove\<close> deletes the
  entry of a key and \<^verbatim>\<open>Purge\<close> all of them.
\<close>

record lru =
  entries :: "(string \<times> string list) list"
  lru_size :: nat

definition lru_New :: "int \<Rightarrow> lru option" where
  "lru_New n = (if n \<le> 0 then None else Some \<lparr>entries = [], lru_size = nat n\<rparr>)"

definition lru_Get :: "string \<Rightarrow> lru \<Rightarrow> string list option \<times> lru" where
  "lru_Get key c =
     (case map_of (entries c) key of
        Some v \<Rightarrow> (Some v, c\<lparr>entries := (key, v) # filter (\<lambda>e. fst e \<noteq> key) (entries c)\<rparr>)
      | None \<Rightarrow> (None, c))"

definition lru_Add :: "string \<Rightarrow> string list \<Rightarrow> lru \<Rightarrow> lru" where
  "lru_Add key v c =
     (case map_of (entries c) key of
        Some old \<Rightarrow> c\<lparr>entries := (key, v) # filter (\<lambda>e. fst e \<noteq> key) (entries c)\<rparr>
      | None \<Rightarrow>
          (let es = (key, v) # entries c
           in if lru_size c < length es then c\<lparr>entries := butlast es\<rparr> else c\<lparr>entries := es\<rparr>))"

definition lru_Remove :: "string \<Rightarrow> lru \<Rightarrow> lru" where
  "lru_Remove key c = c\<lparr>entries := filter (\<lambda>e. fst e \<noteq> key) (entries c)\<rparr>"

definition lru_Purge :: "lru \<Rightarrow> lru" where
  "lru_Purge c = c\<lparr>entries := []\<rparr>"

definition defaultLRUCacheSize :: int where
  "defaultLRUCacheSize = 1024"

subsection \<open>Shards and the cache\<close>

text \<open>
  A shard owns the plain map \<^verbatim>\<open>m\<close> (here \<open>shard_m\<close>) and its hit and miss counters
  (\<^verbatim>\<open>atomic.Uint64\<close>). A cached value is a \<^verbatim>\<open>[]string\<close>; the \<^verbatim>\<open>nil\<close> slice that \<^verbatim>\<open>Get\<close> returns on a
  miss is the empty list. The locks are not modelled: each operation is one atomic step.
\<close>

record shard =
  shard_m :: "string \<rightharpoonup> string list"
  hits :: "64 word"
  misses :: "64 word"

record shardedCache =
  shards :: "shard list"
  shardCount :: "32 word"
  lruCaches :: "lru list"

text \<open>
  \<^verbatim>\<open>newShardedCache\<close>: \<open>numCPU\<close> is what \<^verbatim>\<open>runtime.NumCPU()\<close> returns. The constructor panics when
  \<^verbatim>\<open>lru.New\<close> fails.
\<close>

definition newShardedCache :: "int \<Rightarrow> panic + shardedCache" where
  "newShardedCache numCPU =
     (let numShards = (if numCPU < 1 then 1 else if numCPU > 64 then 64 else numCPU)
      in case lru_New defaultLRUCacheSize of
           None \<Rightarrow> Inl LRUCreateFailed
         | Some lruCache \<Rightarrow>
             Inr \<lparr>shards = replicate (nat numShards) \<lparr>shard_m = Map.empty, hits = 0, misses = 0\<rparr>,
                  shardCount = word_of_int numShards,
                  lruCaches = replicate (nat numShards) lruCache\<rparr>)"

text \<open>\<^verbatim>\<open>hash % c.shardCount\<close> on \<^verbatim>\<open>uint32\<close> panics when \<^verbatim>\<open>shardCount\<close> is zero.\<close>

definition hash :: "shardedCache \<Rightarrow> string \<Rightarrow> panic + 32 word" where
  "hash c key =
     (let h = murmur3_Sum32 key
      in if shardCount c = 0 then Inl DivideByZero else Inr (h mod shardCount c))"

text \<open>
  \<^verbatim>\<open>Get\<close>, \<^verbatim>\<open>Set\<close> and \<^verbatim>\<open>Delete\<close> index \<^verbatim>\<open>c.shards\<close> and \<^verbatim>\<open>c.lruCaches\<close> with the hash; an index
  out of range panics. \<^verbatim>\<open>Delete\<close> returns the \<^verbatim>\<open>error\<close> of its signature.
\<close>

definition Get :: "string \<Rightarrow> shardedCache \<Rightarrow> panic + ((string list \<times> bool) \<times> shardedCache)" where
  "Get key c =
     bind_p (hash c key) (\<lambda>shardIndex.
       let i = unat shardIndex in
       if length (shards c) \<le> i \<or> length (lruCaches c) \<le> i then Inl IndexOutOfRange
       else
         let shard = shards c ! i; lruCache = lruCaches c ! i in
         case lru_Get key lruCache of
           (Some v, lruCache') \<Rightarrow>
             Inr ((v, True),
               c\<lparr>lruCaches := (lruCaches c)[i := lruCache'],
                 shards := (shards c)[i := shard\<lparr>hits := hits shard + 1\<rparr>]\<rparr>)
         | (None, lruCache') \<Rightarrow>
             (case shard_m shard key of
                Some v \<Rightarrow>
                  Inr ((v, True),
                    c\<lparr>lruCaches := (lruCaches c)[i := lru_Add key v lruCache'],
                      shards := (shards c)[i := shard\<lparr>hits := hits shard + 1\<rparr>]\<rparr>)
              | None \<Rightarrow>
                  Inr (([], False),
                    c\<lparr>lruCaches := (lruCaches c)[i := lruCache'],
                      shards := (shards c)[i := shard\<lparr>misses := misses shard + 1\<rparr>]\<rparr>)))"

definition Set :: "string \<Rightarrow> string list \<Rightarrow> shardedCache \<Rightarrow> panic + shardedCache" where
  "Set key v c =
     bind_p (hash c key) (\<lambda>shardIndex.
       let i = unat shardIndex in
       if length (shards c) \<le> i \<or> length (lruCaches c) \<le> i then Inl IndexOutOfRange
       else
         let shard = shards c ! i; lruCache = lruCaches c ! i in
         Inr (c\<lparr>shards := (shards c)[i := shard\<lparr>shard_m := (shard_m shard)(key \<mapsto> v)\<rparr>],
                lruCaches := (lruCaches c)[i := lru_Add key v lruCache]\<rparr>))"


definition Delete :: "string \<Rightarrow> shardedCache \<Rightarrow> panic + (error option \<times> shardedCache)" where
  "Delete key c =
     bind_p (hash c key) (\<lambda>shardIndex.
       let i = unat shardIndex in
       if length (shards c) \<le> i \<or> length (lruCaches c) \<le> i then Inl IndexOutOfRange
       else
         let shard = shards c ! i; lruCache = lruCaches c ! i in
         Inr (None,
           c\<lparr>shards := (shards c)[i := shard\<lparr>shard_m := (shard_m shard)(key := None)\<rparr>],
             lruCaches := (lruCaches c)[i := lru_Remove key lruCache]\<rparr>))"

text \<open>\<^verbatim>\<open>Clear\<close>: the loop over \<^verbatim>\<open>i := 0; i < shardCount; i++\<close>.\<close>

fun clear_loop :: "nat list \<Rightarrow> shardedCache \<Rightarrow> panic + shardedCache" where
  "clear_loop [] c = Inr c"
| "clear_loop (i # rest) c =
     (if length (shards c) \<le> i \<or> length (lruCaches c) \<le> i then Inl IndexOutOfRange
      else
        let shard = shards c ! i; lruCache = lruCaches c ! i in
        clear_loop rest
          (c\<lparr>shards := (shards c)[i := shard\<lparr>shard_m := Map.empty, hits := 0, misses := 0\<rparr>],
             lruCaches := (lruCaches c)[i := lru_Purge lruCache]\<rparr>))"

definition Clear :: "shardedCache \<Rightarrow> panic + shardedCache" where
  "Clear c = clear_loop [0..<unat (shardCount c)] c"

text \<open>
  A history of a cache: the operations called on it since \<^verbatim>\<open>newShardedCache\<close>, oldest first.
  \<open>cache_after numCPU ops\<close> is the cache they leave.
\<close>

datatype cache_op = OpGet string | OpSet string "string list" | OpDelete string | OpClear

fun apply_cache_op :: "cache_op \<Rightarrow> shardedCache \<Rightarrow> panic + shardedCache" where
  "apply_cache_op (OpGet key) c = bind_p (Get key c) (\<lambda>(r, c'). Inr c')"
| "apply_cache_op (OpSet key v) c = Set key v c"
| "apply_cache_op (OpDelete key) c = bind_p (Delete key c) (\<lambda>(r, c'). Inr c')"
| "apply_cache_op OpClear c = Clear c"

fun run_cache_ops :: "cache_op list \<Rightarrow> shardedCache \<Rightarrow> panic + shardedCache" where
  "run_cache_ops [] c = Inr c"
| "run_cache_ops (op # ops) c = bind_p (apply_cache_op op c) (run_cache_ops ops)"

definition cache_after :: "int \<Rightarrow> cache_op list \<Rightarrow> panic + shardedCache" where
  "cache_after numCPU ops = bind_p (newShardedCache numCPU) (run_cache_ops ops)"

text \<open>
  The shape of a cache made by \<^verbatim>\<open>newShardedCache\<close>, and the relation between the two tiers:
  every entry of a shard's LRU is an entry of the same shard's plain map.
\<close>

definition cache_wf :: "shardedCache \<Rightarrow> bool" where
  "cache_wf c \<longleftrightarrow>
     shardCount c \<noteq> 0 \<and> length (shards c) = unat (shardCount c) \<and>
     length (lruCaches c) = unat (shardCount c) \<and> list_all (\<lambda>l. 0 < lru_size l) (lruCaches c)"

definition lru_in_map :: "shardedCache \<Rightarrow> bool" where
  "lru_in_map c \<longleftrightarrow>
     (\<forall>i < length (lruCaches c). \<forall>key v.
        (key, v) \<in> set (entries (lruCaches c ! i)) \<longrightarrow> shard_m (shards c ! i) key = Some v)"


lemma hash_wf:
  assumes "cache_wf c"
  shows "hash c key = Inr (murmur3_Sum32 key mod shardCount c)"
    and "unat (murmur3_Sum32 key mod shardCount c) < length (shards c)"
    and "unat (murmur3_Sum32 key mod shardCount c) < length (lruCaches c)"
proof -
  from assms have nz: "shardCount c \<noteq> 0" by (simp add: cache_wf_def)
  then show "hash c key = Inr (murmur3_Sum32 key mod shardCount c)"
    by (simp add: hash_def)
  from nz have "0 < unat (shardCount c)" by (simp add: unat_gt_0)
  then have "unat (murmur3_Sum32 key mod shardCount c) < unat (shardCount c)"
    by (simp add: unat_mod)
  with assms show "unat (murmur3_Sum32 key mod shardCount c) < length (shards c)"
    and "unat (murmur3_Sum32 key mod shardCount c) < length (lruCaches c)"
    by (simp_all add: cache_wf_def)
qed

lemma lru_Add_entries:
  "set (entries (lru_Add key v l)) \<subseteq> insert (key, v) {e \<in> set (entries l). fst e \<noteq> key}"
proof (cases "map_of (entries l) key")
  case None
  then have "\<forall>e \<in> set (entries l). fst e \<noteq> key"
    by (auto simp: map_of_eq_None_iff)
  with None show ?thesis
    by (auto simp: lru_Add_def Let_def dest: in_set_butlastD)
next
  case (Some old)
  then show ?thesis by (auto simp: lru_Add_def)
qed

lemma lru_Add_lookup:
  assumes "0 < lru_size l"
  shows "map_of (entries (lru_Add key v l)) key = Some v"
proof (cases "map_of (entries l) key")
  case None
  show ?thesis
  proof (cases "entries l")
    case Nil
    with None assms show ?thesis by (simp add: lru_Add_def Let_def)
  next
    case (Cons e es)
    with None show ?thesis by (simp add: lru_Add_def Let_def)
  qed
next
  case (Some old)
  then show ?thesis by (simp add: lru_Add_def)
qed

lemma lru_Get_entries:
  "set (entries (snd (lru_Get key l))) \<subseteq> set (entries l)"
  by (auto simp: lru_Get_def split: option.splits dest: map_of_SomeD)

lemma lru_Get_hit:
  "lru_Get key l = (Some v, l') \<Longrightarrow> (key, v) \<in> set (entries l)"
  by (auto simp: lru_Get_def split: option.splits dest: map_of_SomeD)

lemma lru_Get_lookup:
  "fst (lru_Get key l) = map_of (entries l) key"
  by (simp add: lru_Get_def split: option.splits)

lemma lru_Remove_lookup: "map_of (entries (lru_Remove key l)) key = None"
  by (auto simp: lru_Remove_def map_of_eq_None_iff)

lemma lru_size_simps:
  "lru_size (lru_Add key v l) = lru_size l"
  "lru_size (snd (lru_Get key l)) = lru_size l"
  "lru_size (lru_Remove key l) = lru_size l"
  "lru_size (lru_Purge l) = lru_size l"
  by (simp_all add: lru_Add_def lru_Get_def lru_Remove_def lru_Purge_def Let_def
      split: option.splits)

lemma cache_wf_update:
  assumes "cache_wf c" "0 < lru_size l'"
  shows "cache_wf (c\<lparr>shards := (shards c)[i := s'], lruCaches := (lruCaches c)[i := l']\<rparr>)"
  using assms by (auto simp: cache_wf_def list_all_iff dest!: set_update_subset_insert [THEN subsetD])

lemma cache_wf_lru_size:
  "cache_wf c \<Longrightarrow> i < length (lruCaches c) \<Longrightarrow> 0 < lru_size (lruCaches c ! i)"
  by (simp add: cache_wf_def list_all_length)

lemma lru_in_map_update:
  assumes "lru_in_map c" "length (shards c) = length (lruCaches c)"
    and "\<And>key v. (key, v) \<in> set (entries l') \<Longrightarrow> shard_m s' key = Some v"
  shows "lru_in_map (c\<lparr>shards := (shards c)[i := s'], lruCaches := (lruCaches c)[i := l']\<rparr>)"
proof -
  have "shard_m ((shards c)[i := s'] ! j) key = Some v"
    if "j < length (lruCaches c)" "(key, v) \<in> set (entries ((lruCaches c)[i := l'] ! j))"
    for j key v
  proof (cases "j = i")
    case True
    with that assms(2,3) show ?thesis by simp
  next
    case False
    with that assms(1) show ?thesis by (simp add: lru_in_map_def)
  qed
  then show ?thesis by (simp add: lru_in_map_def)
qed


lemma Set_ok:
  assumes "cache_wf c"
  shows "\<exists>c'. Set key v c = Inr c' \<and> cache_wf c' \<and> shardCount c' = shardCount c \<and>
           (lru_in_map c \<longrightarrow> lru_in_map c')"
proof -
  let ?i = "unat (murmur3_Sum32 key mod shardCount c)"
  let ?s' = "(shards c ! ?i)\<lparr>shard_m := (shard_m (shards c ! ?i))(key \<mapsto> v)\<rparr>"
  let ?l' = "lru_Add key v (lruCaches c ! ?i)"
  let ?c' = "c\<lparr>shards := (shards c)[?i := ?s'], lruCaches := (lruCaches c)[?i := ?l']\<rparr>"
  note h = hash_wf [OF assms, of key]
  from h have S: "Set key v c = Inr ?c'" by (simp add: Set_def Let_def)
  from cache_wf_lru_size [OF assms h(3)] have "0 < lru_size ?l'" by (simp add: lru_size_simps)
  with assms have W: "cache_wf ?c'" by (rule cache_wf_update)
  have L: "lru_in_map ?c'" if inv: "lru_in_map c"
  proof (rule lru_in_map_update [OF inv])
    show "length (shards c) = length (lruCaches c)" using assms by (simp add: cache_wf_def)
  next
    fix k' v' assume "(k', v') \<in> set (entries ?l')"
    with lru_Add_entries [of key v "lruCaches c ! ?i"]
    have "(k', v') = (key, v) \<or> ((k', v') \<in> set (entries (lruCaches c ! ?i)) \<and> k' \<noteq> key)"
      by auto
    with inv h(3) show "shard_m ?s' k' = Some v'" by (auto simp: lru_in_map_def)
  qed
  from S W L show ?thesis by simp
qed

lemma Delete_ok:
  assumes "cache_wf c"
  shows "\<exists>c'. Delete key c = Inr (None, c') \<and> cache_wf c' \<and> shardCount c' = shardCount c \<and>
           (lru_in_map c \<longrightarrow> lru_in_map c')"
proof -
  let ?i = "unat (murmur3_Sum32 key mod shardCount c)"
  let ?s' = "(shards c ! ?i)\<lparr>shard_m := (shard_m (shards c ! ?i))(key := None)\<rparr>"
  let ?l' = "lru_Remove key (lruCaches c ! ?i)"
  let ?c' = "c\<lparr>shards := (shards c)[?i := ?s'], lruCaches := (lruCaches c)[?i := ?l']\<rparr>"
  note h = hash_wf [OF assms, of key]
  from h have S: "Delete key c = Inr (None, ?c')" by (simp add: Delete_def Let_def)
  from cache_wf_lru_size [OF assms h(3)] have "0 < lru_size ?l'" by (simp add: lru_size_simps)
  with assms have W: "cache_wf ?c'" by (rule cache_wf_update)
  have L: "lru_in_map ?c'" if inv: "lru_in_map c"
  proof (rule lru_in_map_update [OF inv])
    show "length (shards c) = length (lruCaches c)" using assms by (simp add: cache_wf_def)
  next
    fix k' v' assume "(k', v') \<in> set (entries ?l')"
    then have "(k', v') \<in> set (entries (lruCaches c ! ?i)) \<and> k' \<noteq> key"
      by (auto simp: lru_Remove_def)
    with inv h(3) show "shard_m ?s' k' = Some v'" by (auto simp: lru_in_map_def)
  qed
  from S W L show ?thesis by simp
qed

lemma Get_ok:
  assumes "cache_wf c"
  shows "\<exists>r c'. Get key c = Inr (r, c') \<and> cache_wf c' \<and> shardCount c' = shardCount c \<and>
           (lru_in_map c \<longrightarrow> lru_in_map c')"
proof -
  let ?i = "unat (murmur3_Sum32 key mod shardCount c)"
  let ?l = "lruCaches c ! ?i"
  let ?s = "shards c ! ?i"
  note h = hash_wf [OF assms, of key]
  have len: "length (shards c) = length (lruCaches c)" using assms by (simp add: cache_wf_def)
  have sz: "0 < lru_size ?l" by (rule cache_wf_lru_size [OF assms h(3)])
  obtain hit l' where G: "lru_Get key ?l = (hit, l')" by (cases "lru_Get key ?l")
  then have l'_sub: "set (entries l') \<subseteq> set (entries ?l)" and l'_sz: "lru_size l' = lru_size ?l"
    using lru_Get_entries [of key ?l] lru_size_simps(2) [of key ?l] by simp_all
  have keep: "lru_in_map (c\<lparr>shards := (shards c)[?i := s'], lruCaches := (lruCaches c)[?i := l']\<rparr>)"
    if inv: "lru_in_map c" and same: "shard_m s' = shard_m ?s" for s'
  proof (rule lru_in_map_update [OF inv len])
    fix k' v' assume "(k', v') \<in> set (entries l')"
    with l'_sub inv h(3) same show "shard_m s' k' = Some v'" by (auto simp: lru_in_map_def)
  qed
  show ?thesis
  proof (cases hit)
    case (Some v)
    let ?c' = "c\<lparr>shards := (shards c)[?i := ?s\<lparr>hits := hits ?s + 1\<rparr>],
                  lruCaches := (lruCaches c)[?i := l']\<rparr>"
    from h G Some have "Get key c = Inr ((v, True), ?c')" by (simp add: Get_def Let_def)
    moreover from assms sz l'_sz have "cache_wf ?c'" by (simp add: cache_wf_update)
    moreover have "lru_in_map c \<longrightarrow> lru_in_map ?c'" using keep by simp
    moreover have "shardCount ?c' = shardCount c" by simp
    ultimately show ?thesis by blast
  next
    case None
    show ?thesis
    proof (cases "shard_m ?s key")
      case miss: None
      let ?c' = "c\<lparr>shards := (shards c)[?i := ?s\<lparr>misses := misses ?s + 1\<rparr>],
                    lruCaches := (lruCaches c)[?i := l']\<rparr>"
      from h G None miss have "Get key c = Inr (([], False), ?c')" by (simp add: Get_def Let_def)
      moreover from assms sz l'_sz have "cache_wf ?c'" by (simp add: cache_wf_update)
      moreover have "lru_in_map c \<longrightarrow> lru_in_map ?c'" using keep by simp
      moreover have "shardCount ?c' = shardCount c" by simp
      ultimately show ?thesis by blast
    next
      case (Some v)
      let ?s' = "?s\<lparr>hits := hits ?s + 1\<rparr>"
      let ?c' = "c\<lparr>shards := (shards c)[?i := ?s'],
                    lruCaches := (lruCaches c)[?i := lru_Add key v l']\<rparr>"
      from h G None Some have "Get key c = Inr ((v, True), ?c')" by (simp add: Get_def Let_def)
      moreover from assms sz l'_sz have "cache_wf ?c'" by (simp add: cache_wf_update lru_size_simps)
      moreover have "lru_in_map ?c'" if inv: "lru_in_map c"
      proof (rule lru_in_map_update [OF inv len])
        fix k' v' assume "(k', v') \<in> set (entries (lru_Add key v l'))"
        with lru_Add_entries [of key v l'] l'_sub
        have "(k', v') = (key, v) \<or> (k', v') \<in> set (entries ?l)" by auto
        with inv h(3) Some show "shard_m ?s' k' = Some v'" by (auto simp: lru_in_map_def)
      qed
      moreover have "shardCount ?c' = shardCount c" by simp
      ultimately show ?thesis by blast
    qed
  qed
qed

lemma clear_loop_ok:
  assumes "cache_wf c" "\<forall>i \<in> set is. i < unat (shardCount c)"
  shows "\<exists>c'. clear_loop is c = Inr c' \<and> cache_wf c' \<and> shardCount c' = shardCount c \<and>
           (lru_in_map c \<longrightarrow> lru_in_map c')"
  using assms
proof (induction "is" arbitrary: c)
  case Nil
  then show ?case by simp
next
  case (Cons i rest)
  let ?s' = "(shards c ! i)\<lparr>shard_m := Map.empty, hits := 0, misses := 0\<rparr>"
  let ?l' = "lru_Purge (lruCaches c ! i)"
  let ?c1 = "c\<lparr>shards := (shards c)[i := ?s'], lruCaches := (lruCaches c)[i := ?l']\<rparr>"
  from Cons.prems have i: "i < length (shards c)" "i < length (lruCaches c)"
    and len: "length (shards c) = length (lruCaches c)"
    by (simp_all add: cache_wf_def)
  from cache_wf_lru_size [OF Cons.prems(1) i(2)] have "0 < lru_size ?l'"
    by (simp add: lru_size_simps)
  with Cons.prems(1) have W: "cache_wf ?c1" by (rule cache_wf_update)
  have L: "lru_in_map ?c1" if inv: "lru_in_map c"
    by (rule lru_in_map_update [OF inv len]) (simp add: lru_Purge_def)
  from Cons.prems(2) have "\<forall>j \<in> set rest. j < unat (shardCount ?c1)" by simp
  from Cons.IH [OF W this] obtain c' where
    "clear_loop rest ?c1 = Inr c'" "cache_wf c'" "shardCount c' = shardCount ?c1"
    "lru_in_map ?c1 \<longrightarrow> lru_in_map c'"
    by blast
  with i L show ?case by (simp add: Let_def)
qed

lemma Clear_ok:
  assumes "cache_wf c"
  shows "\<exists>c'. Clear c = Inr c' \<and> cache_wf c' \<and> shardCount c' = shardCount c \<and>
           (lru_in_map c \<longrightarrow> lru_in_map c')"
  unfolding Clear_def using assms by (rule clear_loop_ok) simp

lemma apply_cache_op_ok:
  assumes "cache_wf c"
  shows "\<exists>c'. apply_cache_op op c = Inr c' \<and> cache_wf c' \<and> shardCount c' = shardCount c \<and>
           (lru_in_map c \<longrightarrow> lru_in_map c')"
proof (cases op)
  case (OpGet key)
  from Get_ok [OF assms, of key] OpGet show ?thesis by auto
next
  case (OpSet key v)
  from Set_ok [OF assms, of key v] OpSet show ?thesis by auto
next
  case (OpDelete key)
  from Delete_ok [OF assms, of key] OpDelete show ?thesis by auto
next
  case OpClear
  from Clear_ok [OF assms] OpClear show ?thesis by auto
qed

lemma run_cache_ops_ok:
  "cache_wf c \<Longrightarrow>
   \<exists>c'. run_cache_ops ops c = Inr c' \<and> cache_wf c' \<and> shardCount c' = shardCount c \<and>
     (lru_in_map c \<longrightarrow> lru_in_map c')"
proof (induction ops arbitrary: c)
  case Nil
  then show ?case by simp
next
  case (Cons op ops)
  from apply_cache_op_ok [OF Cons.prems, of op] obtain c1 where
    1: "apply_cache_op op c = Inr c1" "cache_wf c1" "shardCount c1 = shardCount c"
      "lru_in_map c \<longrightarrow> lru_in_map c1"
    by blast
  from Cons.IH [OF 1(2)] obtain c' where
    "run_cache_ops ops c1 = Inr c'" "cache_wf c'" "shardCount c' = shardCount c1"
    "lru_in_map c1 \<longrightarrow> lru_in_map c'"
    by blast
  with 1 show ?case by simp
qed

text \<open>The shard count that \<^verbatim>\<open>newShardedCache\<close> computes.\<close>

definition clamp_shards :: "int \<Rightarrow> int" where
  "clamp_shards numCPU = (if numCPU < 1 then 1 else if numCPU > 64 then 64 else numCPU)"

lemma unat_clamp: "unat (word_of_int (clamp_shards n) :: 32 word) = nat (clamp_shards n)"
proof -
  have "0 \<le> clamp_shards n" "clamp_shards n < 2 ^ 32" by (simp_all add: clamp_shards_def)
  then show ?thesis
    by (simp add: unat_eq_nat_uint uint_word_of_int take_bit_int_eq_self)
qed

lemma newShardedCache_ok:
  "\<exists>c. newShardedCache numCPU = Inr c \<and> cache_wf c \<and> lru_in_map c \<and>
     shardCount c = word_of_int (clamp_shards numCPU)"
proof -
  let ?n = "clamp_shards numCPU"
  let ?c = "\<lparr>shards = replicate (nat ?n) \<lparr>shard_m = Map.empty, hits = 0, misses = 0\<rparr>,
             shardCount = word_of_int ?n,
             lruCaches = replicate (nat ?n) \<lparr>entries = [], lru_size = 1024\<rparr>\<rparr>"
  have N: "newShardedCache numCPU = Inr ?c"
    by (simp add: newShardedCache_def clamp_shards_def lru_New_def defaultLRUCacheSize_def)
  have pos: "0 < nat ?n" by (simp add: clamp_shards_def)
  then have "(word_of_int ?n :: 32 word) \<noteq> 0"
    using unat_clamp [of numCPU] by (metis less_numeral_extra(3) unat_0)
  then have W: "cache_wf ?c" by (simp add: cache_wf_def unat_clamp list_all_iff)
  have L: "lru_in_map ?c" by (simp add: lru_in_map_def)
  from N W L show ?thesis by simp
qed

lemma cache_after_ok:
  "\<exists>c. cache_after numCPU ops = Inr c \<and> cache_wf c \<and> lru_in_map c \<and>
     shardCount c = word_of_int (clamp_shards numCPU)"
proof -
  from newShardedCache_ok [of numCPU] obtain c0 where
    0: "newShardedCache numCPU = Inr c0" "cache_wf c0" "lru_in_map c0"
      "shardCount c0 = word_of_int (clamp_shards numCPU)"
    by blast
  from run_cache_ops_ok [OF 0(2), of ops] obtain c where
    "run_cache_ops ops c0 = Inr c" "cache_wf c" "shardCount c = shardCount c0"
    "lru_in_map c0 \<longrightarrow> lru_in_map c"
    by blast
  with 0 show ?thesis by (simp add: cache_after_def)
qed


lemma Set_then_Get:
  assumes "cache_wf c"
  shows "\<exists>c1 c2. Set key v c = Inr c1 \<and> Get key c1 = Inr ((v, True), c2)"
proof -
  let ?i = "unat (murmur3_Sum32 key mod shardCount c)"
  let ?s' = "(shards c ! ?i)\<lparr>shard_m := (shard_m (shards c ! ?i))(key \<mapsto> v)\<rparr>"
  let ?l' = "lru_Add key v (lruCaches c ! ?i)"
  let ?c1 = "c\<lparr>shards := (shards c)[?i := ?s'], lruCaches := (lruCaches c)[?i := ?l']\<rparr>"
  note h = hash_wf [OF assms, of key]
  from h have S: "Set key v c = Inr ?c1" by (simp add: Set_def Let_def)
  from cache_wf_lru_size [OF assms h(3)] have "map_of (entries ?l') key = Some v"
    by (rule lru_Add_lookup)
  then obtain l2 where G: "lru_Get key ?l' = (Some v, l2)"
    by (simp add: lru_Get_def)
  from assms have nz: "shardCount c \<noteq> 0" by (simp add: cache_wf_def)
  have "\<exists>c2. Get key ?c1 = Inr ((v, True), c2)"
    using h(2,3) nz G by (simp add: Get_def hash_def Let_def)
  with S show ?thesis by blast
qed

lemma Delete_then_Get:
  assumes "cache_wf c"
  shows "\<exists>c1 c2. Delete key c = Inr (None, c1) \<and> Get key c1 = Inr (([], False), c2)"
proof -
  let ?i = "unat (murmur3_Sum32 key mod shardCount c)"
  let ?s' = "(shards c ! ?i)\<lparr>shard_m := (shard_m (shards c ! ?i))(key := None)\<rparr>"
  let ?l' = "lru_Remove key (lruCaches c ! ?i)"
  let ?c1 = "c\<lparr>shards := (shards c)[?i := ?s'], lruCaches := (lruCaches c)[?i := ?l']\<rparr>"
  note h = hash_wf [OF assms, of key]
  from h have S: "Delete key c = Inr (None, ?c1)" by (simp add: Delete_def Let_def)
  have G: "lru_Get key ?l' = (None, ?l')"
    by (simp add: lru_Get_def lru_Remove_lookup)
  from assms have nz: "shardCount c \<noteq> 0" by (simp add: cache_wf_def)
  have "\<exists>c2. Get key ?c1 = Inr (([], False), c2)"
    using h(2,3) nz G by (simp add: Get_def hash_def Let_def)
  with S show ?thesis by blast
qed

text \<open>
  Claim C5. On the cache left by any history of operations, for every key and value:
  \<^verbatim>\<open>Set(k, v)\<close> followed by \<^verbatim>\<open>Get(k)\<close> returns \<open>(v, true)\<close>; \<^verbatim>\<open>Delete(k)\<close> returns no error,
  whether or not \<open>k\<close> was present, and \<^verbatim>\<open>Get(k)\<close> after it returns not-found.
\<close>

theorem cache_Set_Get_Delete:
  "\<exists>c c1 c2 c3 c4. cache_after numCPU ops = Inr c \<and>
     Set key v c = Inr c1 \<and> Get key c1 = Inr ((v, True), c2) \<and>
     Delete key c = Inr (None, c3) \<and> Get key c3 = Inr (([], False), c4)"
proof -
  from cache_after_ok [of numCPU ops] obtain c where
    c: "cache_after numCPU ops = Inr c" "cache_wf c"
    by blast
  from Set_then_Get [OF c(2), of key v] Delete_then_Get [OF c(2), of key] c(1)
  show ?thesis by blast
qed

text \<open>
  Claim C7. \<^verbatim>\<open>Get\<close>, \<^verbatim>\<open>Set\<close>, \<^verbatim>\<open>Delete\<close> and \<^verbatim>\<open>Clear\<close> preserve the invariant that every
  (key, value) entry of a shard's LRU tier is in the same shard's plain map with the same
  value: on a well-formed cache that satisfies it, each of them returns a well-formed cache
  that satisfies it. (The new cache satisfies it: \<open>newShardedCache_ok\<close>.)
\<close>

theorem lru_tier_within_plain_map:
  assumes "cache_wf c" "lru_in_map c"
  shows "(\<exists>r c'. Get key c = Inr (r, c') \<and> cache_wf c' \<and> lru_in_map c') \<and>
         (\<exists>c'. Set key v c = Inr c' \<and> cache_wf c' \<and> lru_in_map c') \<and>
         (\<exists>c'. Delete key c = Inr (None, c') \<and> cache_wf c' \<and> lru_in_map c') \<and>
         (\<exists>c'. Clear c = Inr c' \<and> cache_wf c' \<and> lru_in_map c')"
proof (intro conjI)
  from Get_ok [OF assms(1), of key] assms(2)
  show "\<exists>r c'. Get key c = Inr (r, c') \<and> cache_wf c' \<and> lru_in_map c'" by blast
  from Set_ok [OF assms(1), of key v] assms(2)
  show "\<exists>c'. Set key v c = Inr c' \<and> cache_wf c' \<and> lru_in_map c'" by blast
  from Delete_ok [OF assms(1), of key] assms(2)
  show "\<exists>c'. Delete key c = Inr (None, c') \<and> cache_wf c' \<and> lru_in_map c'" by blast
  from Clear_ok [OF assms(1)] assms(2)
  show "\<exists>c'. Clear c = Inr c' \<and> cache_wf c' \<and> lru_in_map c'" by blast
qed

theorem lru_tier_within_plain_map_witness:
  "cache_wf \<lparr>shards = [\<lparr>shard_m = [''a'' \<mapsto> [''x'']], hits = 0, misses = 0\<rparr>], shardCount = 1,
             lruCaches = [\<lparr>entries = [(''a'', [''x''])], lru_size = 1024\<rparr>]\<rparr> \<and>
   lru_in_map \<lparr>shards = [\<lparr>shard_m = [''a'' \<mapsto> [''x'']], hits = 0, misses = 0\<rparr>], shardCount = 1,
             lruCaches = [\<lparr>entries = [(''a'', [''x''])], lru_size = 1024\<rparr>]\<rparr> \<and>
   (\<exists>c'. Set ''b'' [''y'']
       \<lparr>shards = [\<lparr>shard_m = [''a'' \<mapsto> [''x'']], hits = 0, misses = 0\<rparr>], shardCount = 1,
        lruCaches = [\<lparr>entries = [(''a'', [''x''])], lru_size = 1024\<rparr>]\<rparr> = Inr c' \<and>
      cache_wf c' \<and> lru_in_map c')"
proof -
  let ?c = "\<lparr>shards = [\<lparr>shard_m = [''a'' \<mapsto> [''x'']], hits = 0, misses = 0\<rparr>], shardCount = 1,
             lruCaches = [\<lparr>entries = [(''a'', [''x''])], lru_size = 1024\<rparr>]\<rparr>"
  have W: "cache_wf ?c" by (simp add: cache_wf_def)
  have L: "lru_in_map ?c" by (simp add: lru_in_map_def)
  from lru_tier_within_plain_map [OF W L, of "''b''" "[''y'']"] W L
  show ?thesis by blast
qed

text \<open>
  Claim C8. On the cache left by any history of operations, the shard count is the number of
  CPUs clamped to 1..64, as fixed by the constructor; the shard index of a key is
  \<open>murmur3_Sum32 key mod shardCount\<close>, a function of the key and the shard count alone, strictly
  less than the shard count and the length of both slices; \<^verbatim>\<open>Get\<close>, \<^verbatim>\<open>Set\<close> and \<^verbatim>\<open>Delete\<close>
  therefore never index out of range.
\<close>

theorem shard_index_valid:
  "\<exists>c. cache_after numCPU ops = Inr c \<and>
     shardCount c = word_of_int (if numCPU < 1 then 1 else if numCPU > 64 then 64 else numCPU) \<and>
     1 \<le> unat (shardCount c) \<and> unat (shardCount c) \<le> 64 \<and>
     length (shards c) = unat (shardCount c) \<and> length (lruCaches c) = unat (shardCount c) \<and>
     hash c key = Inr (murmur3_Sum32 key mod shardCount c) \<and>
     unat (murmur3_Sum32 key mod shardCount c) < unat (shardCount c) \<and>
     (\<exists>r c'. Get key c = Inr (r, c')) \<and> (\<exists>c'. Set key v c = Inr c') \<and>
     (\<exists>c'. Delete key c = Inr (None, c'))"
proof -
  from cache_after_ok [of numCPU ops] obtain c where
    c: "cache_after numCPU ops = Inr c" "cache_wf c"
      "shardCount c = word_of_int (clamp_shards numCPU)"
    by blast
  have n: "unat (shardCount c) = nat (clamp_shards numCPU)"
    using c(3) by (simp add: unat_clamp)
  have b: "1 \<le> unat (shardCount c)" "unat (shardCount c) \<le> 64"
    unfolding n by (auto simp: clamp_shards_def)
  from c(2) have len: "length (shards c) = unat (shardCount c)"
    "length (lruCaches c) = unat (shardCount c)"
    by (simp_all add: cache_wf_def)
  note h = hash_wf [OF c(2), of key]
  from h(2) len have idx: "unat (murmur3_Sum32 key mod shardCount c) < unat (shardCount c)"
    by simp
  from Get_ok [OF c(2), of key] have G: "\<exists>r c'. Get key c = Inr (r, c')" by blast
  from Set_ok [OF c(2), of key v] have S: "\<exists>c'. Set key v c = Inr c'" by blast
  from Delete_ok [OF c(2), of key] have D: "\<exists>c'. Delete key c = Inr (None, c')" by blast
  from c(1) c(3) b len h(1) idx G S D show ?thesis
    unfolding clamp_shards_def by blast
qed

section \<open>The asynchronous logger\<close>

text \<open>
  A \<^verbatim>\<open>slog.Record\<close> is its level and message. The log sink is known by its interface only: a
  handler is the sink, or a handler derived from one by \<^verbatim>\<open>WithAttrs\<close> or \<^verbatim>\<open>WithGroup\<close>, and what
  its \<^verbatim>\<open>Handle\<close> returns for a record (\<^verbatim>\<open>nil\<close> or an error) is a parameter \<open>sink\<close> of the
  operations that call it.
\<close>

datatype slog_Record = Record int string

datatype handler =
  Sink string | HandlerWithAttrs handler "(string \<times> string) list" | HandlerWithGroup handler string

type_synonym sink_behaviour = "handler \<Rightarrow> slog_Record \<Rightarrow> error option"

text \<open>
  An \<^verbatim>\<open>asyncLogger\<close> object has its own counters and \<^verbatim>\<open>closed\<close> flag, and references to the
  channel \<^verbatim>\<open>ch\<close>, the wait group, the context and its cancel function. \<^verbatim>\<open>NewAsyncLogger\<close> makes
  these once, and \<^verbatim>\<open>WithAttrs\<close> and \<^verbatim>\<open>WithGroup\<close> copy the references into the object they
  make. So a pipeline is one record channel, one context, one error channel, one consumer
  goroutine, and the heap of the logger objects that refer to them: \<open>loggers\<close>, where an
  object's address is its index. The field \<^verbatim>\<open>errCh\<close> of an object is \<^verbatim>\<open>nil\<close> (\<open>None\<close>) or the
  pipeline's error channel.
\<close>

record asyncLogger =
  baseHandler :: handler
  errCh :: "unit option"
  dropped :: "64 word"
  total_al :: "64 word"
  closed :: bool

text \<open>
  The consumer goroutine \<^verbatim>\<open>process\<close> is about to run its \<^verbatim>\<open>select\<close>, or is parked in it
  because no case was ready, or is inside the sink's \<^verbatim>\<open>Handle\<close> with a record it received, or
  has returned.

  Channels are Go's channels: a queue, oldest first, a capacity (0 for an unbuffered channel)
  and a closed flag. A non-blocking send succeeds when the consumer is parked on the channel,
  which then receives the record directly, or when the queue is shorter than the capacity.
  The context is cancelled or not.
\<close>

datatype consumer = AtSelect | Parked | Handling slog_Record | Returned

record pipeline =
  ch_buf :: "slog_Record list"
  ch_cap :: nat
  ch_closed :: bool
  ctx_done :: bool
  errCh_buf :: "error list"
  errCh_closed :: bool
  consumer :: consumer
  loggers :: "asyncLogger list"

definition errCh_cap :: nat where
  "errCh_cap = 100"

definition NewAsyncLogger :: "handler \<Rightarrow> int \<Rightarrow> panic + (nat \<times> pipeline)" where
  "NewAsyncLogger h bufferSize =
     (if bufferSize < 0 then Inl NegativeChanSize
      else Inr (0,
        \<lparr>ch_buf = [], ch_cap = nat bufferSize, ch_closed = False, ctx_done = False,
         errCh_buf = [], errCh_closed = False, consumer = AtSelect,
         loggers = [\<lparr>baseHandler = h, errCh = Some (), dropped = 0, total_al = 0, closed = False\<rparr>]\<rparr>))"

text \<open>
  The non-blocking send of an error to \<^verbatim>\<open>al.errCh\<close>, \<^verbatim>\<open>select { case al.errCh <- err: default: }\<close>:
  a \<^verbatim>\<open>nil\<close> channel is never ready, a closed one panics, a full one drops the error.
\<close>

definition report :: "asyncLogger \<Rightarrow> error \<Rightarrow> pipeline \<Rightarrow> panic + pipeline" where
  "report l err w =
     (case errCh l of
        None \<Rightarrow> Inr w
      | Some u \<Rightarrow>
          if errCh_closed w then Inl SendOnClosedChannel
          else if length (errCh_buf w) < errCh_cap then Inr (w\<lparr>errCh_buf := errCh_buf w @ [err]\<rparr>)
          else Inr w)"

text \<open>
  \<^verbatim>\<open>Handle\<close>. The \<^verbatim>\<open>select\<close> has a send on \<^verbatim>\<open>al.ch\<close>, a receive on \<^verbatim>\<open>al.ctx.Done()\<close> and a default.
  When both cases are ready Go picks one at random: \<open>pick_send\<close> is that choice. A send on a
  closed channel is ready, and panics when chosen; otherwise the record goes to the parked
  consumer, or into the queue. An address that is no object is a \<^verbatim>\<open>nil\<close> receiver.
\<close>

definition Handle :: "nat \<Rightarrow> slog_Record \<Rightarrow> bool \<Rightarrow> pipeline \<Rightarrow> panic + (error option \<times> pipeline)" where
  "Handle al r pick_send w =
     (if length (loggers w) \<le> al then Inl NilDereference
      else
        let l = loggers w ! al in
        if closed l then Inr (Some ErrClosed, w)
        else
          let send_ready = (ch_closed w \<or> consumer w = Parked \<or> length (ch_buf w) < ch_cap w);
              done_ready = ctx_done w
          in
          if send_ready \<and> (pick_send \<or> \<not> done_ready) then
            (if ch_closed w then Inl SendOnClosedChannel
             else if consumer w = Parked then
               Inr (None,
                 w\<lparr>consumer := Handling r,
                   loggers := (loggers w)[al := l\<lparr>total_al := total_al l + 1\<rparr>]\<rparr>)
             else
               Inr (None,
                 w\<lparr>ch_buf := ch_buf w @ [r],
                   loggers := (loggers w)[al := l\<lparr>total_al := total_al l + 1\<rparr>]\<rparr>))
          else if done_ready then Inr (Some ErrCanceled, w)
          else
            bind_p (report l ErrChannelFull (w\<lparr>loggers := (loggers w)[al := l\<lparr>dropped := dropped l + 1\<rparr>]\<rparr>))
              (\<lambda>w'. Inr (None, w')))"

text \<open>
  \<^verbatim>\<open>WithAttrs\<close> and \<^verbatim>\<open>WithGroup\<close> allocate a new object: the derived base handler, the same
  channel, wait group, context and cancel function, and the zero value of every other field.
\<close>

definition WithAttrs :: "nat \<Rightarrow> (string \<times> string) list \<Rightarrow> pipeline \<Rightarrow> panic + (nat \<times> pipeline)" where
  "WithAttrs al attrs w =
     (if length (loggers w) \<le> al then Inl NilDereference
      else
        let l = loggers w ! al in
        Inr (length (loggers w),
          w\<lparr>loggers := loggers w @
              [\<lparr>baseHandler = HandlerWithAttrs (baseHandler l) attrs, errCh = None,
                dropped = 0, total_al = 0, closed = False\<rparr>]\<rparr>))"

definition WithGroup :: "nat \<Rightarrow> string \<Rightarrow> pipeline \<Rightarrow> panic + (nat \<times> pipeline)" where
  "WithGroup al name w =
     (if length (loggers w) \<le> al then Inl NilDereference
      else
        let l = loggers w ! al in
        Inr (length (loggers w),
          w\<lparr>loggers := loggers w @
              [\<lparr>baseHandler = HandlerWithGroup (baseHandler l) name, errCh = None,
                dropped = 0, total_al = 0, closed = False\<rparr>]\<rparr>))"

text \<open>
  The consumer goroutine \<^verbatim>\<open>process\<close> of the logger at address 0. Returning runs its deferred
  \<^verbatim>\<open>close(al.errCh)\<close> and \<^verbatim>\<open>al.wg.Done()\<close>. \<open>process_step\<close> is one step of it: the sink's
  \<^verbatim>\<open>Handle\<close> returns and its error is reported, or the \<^verbatim>\<open>select\<close> runs, where \<open>pick_recv\<close> is
  the random choice when a record and the cancellation are both ready; with neither ready
  the goroutine parks.
\<close>

definition process_exit :: "pipeline \<Rightarrow> panic + pipeline" where
  "process_exit w =
     (if errCh_closed w then Inl CloseOfClosedChannel
      else Inr (w\<lparr>errCh_closed := True, consumer := Returned\<rparr>))"

definition process_record :: "sink_behaviour \<Rightarrow> slog_Record \<Rightarrow> pipeline \<Rightarrow> panic + pipeline" where
  "process_record sink r w =
     (if loggers w = [] then Inl NilDereference
      else
        let l = loggers w ! 0 in
        case sink (baseHandler l) r of
          None \<Rightarrow> Inr w
        | Some err \<Rightarrow> report l err w)"

definition process_step :: "sink_behaviour \<Rightarrow> bool \<Rightarrow> pipeline \<Rightarrow> panic + pipeline" where
  "process_step sink pick_recv w =
     (case consumer w of
        Returned \<Rightarrow> Inr w
      | Handling r \<Rightarrow> process_record sink r (w\<lparr>consumer := AtSelect\<rparr>)
      | _ \<Rightarrow>
          let recv_ready = (ch_buf w \<noteq> [] \<or> ch_closed w);
              done_ready = ctx_done w
          in
          if recv_ready \<and> (pick_recv \<or> \<not> done_ready) then
            (case ch_buf w of
               [] \<Rightarrow> process_exit w
             | r # rest \<Rightarrow> Inr (w\<lparr>ch_buf := rest, consumer := Handling r\<rparr>))
          else if done_ready then process_exit w
          else Inr (w\<lparr>consumer := Parked\<rparr>))"

text \<open>
  After \<^verbatim>\<open>Close\<close> has closed the channel and cancelled the context, the consumer finishes the
  record it is handling, and the records still queued are received by the consumer goroutine
  or by the drain goroutine of \<^verbatim>\<open>Close\<close>, in any interleaving: \<open>sched\<close> says, record by record,
  whether \<^verbatim>\<open>process\<close> takes it (and reports the sink's error) or the drain loop does (which
  ignores the error). Then \<^verbatim>\<open>process\<close> returns.
\<close>

fun drain_records :: "sink_behaviour \<Rightarrow> bool list \<Rightarrow> slog_Record list \<Rightarrow> pipeline \<Rightarrow> panic + pipeline" where
  "drain_records sink sched [] w = Inr w"
| "drain_records sink [] (r # rest) w = drain_records sink [] rest w"
| "drain_records sink (by_process # sched) (r # rest) w =
     (if by_process then bind_p (process_record sink r w) (drain_records sink sched rest)
      else drain_records sink sched rest w)"

definition shutdown :: "sink_behaviour \<Rightarrow> bool list \<Rightarrow> pipeline \<Rightarrow> panic + pipeline" where
  "shutdown sink sched w =
     (case consumer w of
        Returned \<Rightarrow> Inr (w\<lparr>ch_buf := []\<rparr>)
      | Handling r \<Rightarrow>
          bind_p (process_record sink r (w\<lparr>consumer := AtSelect\<rparr>)) (\<lambda>w.
            bind_p (drain_records sink sched (ch_buf w) (w\<lparr>ch_buf := []\<rparr>)) process_exit)
      | _ \<Rightarrow> bind_p (drain_records sink sched (ch_buf w) (w\<lparr>ch_buf := []\<rparr>)) process_exit)"

text \<open>
  \<^verbatim>\<open>collectErrors\<close> runs once \<^verbatim>\<open>process\<close> has returned: it receives every buffered error and
  returns \<^verbatim>\<open>nil\<close> when there is none, their \<^verbatim>\<open>errors.Join\<close> otherwise. On a \<^verbatim>\<open>nil\<close> error channel
  its \<^verbatim>\<open>select\<close> takes the default at once. (Its five-second timer is never ready while another
  case or the default is.)
\<close>

definition collectErrors :: "asyncLogger \<Rightarrow> pipeline \<Rightarrow> error option \<times> pipeline" where
  "collectErrors l w =
     (case errCh l of
        None \<Rightarrow> (None, w)
      | Some u \<Rightarrow>
          let errs = errCh_buf w; w' = w\<lparr>errCh_buf := []\<rparr>
          in if length errs = 0 then (None, w') else (Some (ErrJoin errs), w'))"

text \<open>
  \<^verbatim>\<open>Close\<close>. Called sequentially, the compare-and-swap succeeds whenever the first check found
  the flag unset. \<^verbatim>\<open>close(al.ch)\<close> panics on a channel that is already closed. \<open>timed_out\<close> says
  that the five seconds elapse before the drain goroutine signals \<^verbatim>\<open>done\<close>; the consumer and
  the drain goroutine it leaves behind go on as steps of the history.
\<close>

definition Close :: "nat \<Rightarrow> sink_behaviour \<Rightarrow> bool list \<Rightarrow> bool \<Rightarrow> pipeline \<Rightarrow> panic + (error option \<times> pipeline)" where
  "Close al sink sched timed_out w =
     (if length (loggers w) \<le> al then Inl NilDereference
      else
        let l = loggers w ! al in
        if closed l then Inr (None, w)
        else
          let l = l\<lparr>closed := True\<rparr>;
              w = w\<lparr>loggers := (loggers w)[al := l]\<rparr>
          in
          if ch_closed w then Inl CloseOfClosedChannel
          else
            let w = w\<lparr>ch_closed := True\<rparr>;
                w = w\<lparr>ctx_done := True\<rparr>
            in
            if timed_out then Inr (Some ErrCloseTimeout, w)
            else bind_p (shutdown sink sched w) (\<lambda>w. Inr (collectErrors l w)))"

definition GetDroppedLogsCount :: "nat \<Rightarrow> pipeline \<Rightarrow> 64 word" where
  "GetDroppedLogsCount al w = dropped (loggers w ! al)"

definition GetTotalLogsCount :: "nat \<Rightarrow> pipeline \<Rightarrow> 64 word" where
  "GetTotalLogsCount al w = total_al (loggers w ! al)"

text \<open>
  A step of the drain goroutine that a timed-out \<^verbatim>\<open>Close\<close> leaves behind: it receives the next
  record queued on the closed channel and ignores what the sink returns for it.

  A history of a pipeline: the calls of \<^verbatim>\<open>Handle\<close>, \<^verbatim>\<open>Close\<close>, \<^verbatim>\<open>WithAttrs\<close> and \<^verbatim>\<open>WithGroup\<close> on any
  of its logger objects, the original or a derived one, and the steps of its consumer and
  drain goroutines, oldest first; each step that calls the sink carries what the sink
  returns then. \<open>logger_after\<close> is the pipeline they leave when none of them panics;
  \<open>closes al\<close> says that a call is \<^verbatim>\<open>Close\<close> on the object \<open>al\<close>. \<open>quiet_sink\<close> is a sink that never
  fails.
\<close>

definition drain_step :: "pipeline \<Rightarrow> pipeline" where
  "drain_step w =
     (if ch_closed w then (case ch_buf w of [] \<Rightarrow> w | r # rest \<Rightarrow> w\<lparr>ch_buf := rest\<rparr>) else w)"

datatype logger_op =
    CallHandle nat slog_Record bool
  | CallClose nat sink_behaviour "bool list" bool
  | CallWithAttrs nat "(string \<times> string) list"
  | CallWithGroup nat string
  | ProcessStep sink_behaviour bool
  | DrainStep

fun apply_logger_op :: "logger_op \<Rightarrow> pipeline \<Rightarrow> panic + pipeline" where
  "apply_logger_op (CallHandle al r pick_send) w =
     bind_p (Handle al r pick_send w) (\<lambda>(e, w'). Inr w')"
| "apply_logger_op (CallClose al sink sched timed_out) w =
     bind_p (Close al sink sched timed_out w) (\<lambda>(e, w'). Inr w')"
| "apply_logger_op (CallWithAttrs al attrs) w =
     bind_p (WithAttrs al attrs w) (\<lambda>(d, w'). Inr w')"
| "apply_logger_op (CallWithGroup al name) w =
     bind_p (WithGroup al name w) (\<lambda>(d, w'). Inr w')"
| "apply_logger_op (ProcessStep sink pick_recv) w = process_step sink pick_recv w"
| "apply_logger_op DrainStep w = Inr (drain_step w)"

fun run_logger_ops :: "logger_op list \<Rightarrow> pipeline \<Rightarrow> panic + pipeline" where
  "run_logger_ops [] w = Inr w"
| "run_logger_ops (op # ops) w = bind_p (apply_logger_op op w) (run_logger_ops ops)"

definition logger_after :: "handler \<Rightarrow> int \<Rightarrow> logger_op list \<Rightarrow> panic + pipeline" where
  "logger_after h bufferSize ops =
     bind_p (NewAsyncLogger h bufferSize) (\<lambda>(al, w). run_logger_ops ops w)"

fun closes :: "nat \<Rightarrow> logger_op \<Rightarrow> bool" where
  "closes al (CallClose al' sink sched timed_out) = (al' = al)"
| "closes al op = False"


text \<open>
  What holds of every pipeline: the context is cancelled exactly when the channel is closed;
  an object's \<^verbatim>\<open>closed\<close> flag is set only when the channel is closed; the error channel is
  closed exactly when \<^verbatim>\<open>process\<close> has returned, which happens only after the channel is
  closed; and the queue is empty while the consumer is parked. \<open>errs_added w w'\<close> says that
  \<open>w'\<close> is \<open>w\<close> with errors appended to the error channel.
\<close>

definition pipe_inv :: "pipeline \<Rightarrow> bool" where
  "pipe_inv w \<longleftrightarrow>
     loggers w \<noteq> [] \<and> ctx_done w = ch_closed w \<and>
     (True \<in> set (map closed (loggers w)) \<longrightarrow> ch_closed w) \<and>
     errCh_closed w = (consumer w = Returned) \<and>
     (consumer w = Returned \<longrightarrow> ch_closed w) \<and>
     (consumer w = Parked \<longrightarrow> ch_buf w = [])"

definition errs_added :: "pipeline \<Rightarrow> pipeline \<Rightarrow> bool" where
  "errs_added w w' \<longleftrightarrow>
     ch_buf w' = ch_buf w \<and> ch_cap w' = ch_cap w \<and> ch_closed w' = ch_closed w \<and>
     ctx_done w' = ctx_done w \<and> errCh_closed w' = errCh_closed w \<and>
     consumer w' = consumer w \<and> loggers w' = loggers w \<and>
     (\<exists>es. errCh_buf w' = errCh_buf w @ es)"

lemma bind_p_eq_Inr: "bind_p x f = Inr y \<longleftrightarrow> (\<exists>z. x = Inr z \<and> f z = Inr y)"
  by (cases x) auto

lemma errs_added_refl: "errs_added w w"
  by (simp add: errs_added_def)

lemma errs_added_trans: "errs_added w w1 \<Longrightarrow> errs_added w1 w2 \<Longrightarrow> errs_added w w2"
  by (auto simp: errs_added_def)

lemma errs_added_inv: "errs_added w w' \<Longrightarrow> pipe_inv w' = pipe_inv w"
  by (auto simp: errs_added_def pipe_inv_def)

lemma report_open:
  assumes "\<not> errCh_closed w"
  shows "report l err w =
     Inr (w\<lparr>errCh_buf := (if errCh l \<noteq> None \<and> length (errCh_buf w) < errCh_cap
                           then errCh_buf w @ [err] else errCh_buf w)\<rparr>)"
  using assms by (simp add: report_def split: option.splits)

lemma report_errs_added:
  "\<not> errCh_closed w \<Longrightarrow> \<exists>w'. report l err w = Inr w' \<and> errs_added w w'"
  by (auto simp: report_def errs_added_def split: option.splits)

lemma flags_update:
  "al < length ls \<Longrightarrow> closed l' = closed (ls ! al) \<Longrightarrow> map closed (ls[al := l']) = map closed ls"
  by (simp add: map_update list_update_same_conv)

lemma pipe_inv_open:
  assumes "pipe_inv w" "\<not> ch_closed w"
  shows "\<not> ctx_done w \<and> \<not> errCh_closed w \<and> consumer w \<noteq> Returned"
  using assms by (auto simp: pipe_inv_def)

lemma pipe_inv_closed_flag:
  assumes "pipe_inv w" "al < length (loggers w)" "closed (loggers w ! al)"
  shows "ch_closed w"
proof -
  from assms(2) have "loggers w ! al \<in> set (loggers w)" by (rule nth_mem)
  with assms(3) have "True \<in> set (map closed (loggers w))" by force
  with assms(1) show ?thesis by (simp add: pipe_inv_def)
qed

lemma Handle_table:
  assumes "pipe_inv w" "al < length (loggers w)"
  shows "Handle al r pick w =
     (if closed (loggers w ! al) then Inr (Some ErrClosed, w)
      else if ch_closed w then
        (if pick then Inl SendOnClosedChannel else Inr (Some ErrCanceled, w))
      else if consumer w = Parked then
        Inr (None, w\<lparr>consumer := Handling r,
                     loggers := (loggers w)[al := (loggers w ! al)\<lparr>total_al := total_al (loggers w ! al) + 1\<rparr>]\<rparr>)
      else if length (ch_buf w) < ch_cap w then
        Inr (None, w\<lparr>ch_buf := ch_buf w @ [r],
                     loggers := (loggers w)[al := (loggers w ! al)\<lparr>total_al := total_al (loggers w ! al) + 1\<rparr>]\<rparr>)
      else
        Inr (None, w\<lparr>errCh_buf := (if errCh (loggers w ! al) \<noteq> None \<and> length (errCh_buf w) < errCh_cap
                                     then errCh_buf w @ [ErrChannelFull] else errCh_buf w),
                     loggers := (loggers w)[al := (loggers w ! al)\<lparr>dropped := dropped (loggers w ! al) + 1\<rparr>]\<rparr>))"
proof (cases "closed (loggers w ! al)")
  case True
  with assms show ?thesis by (simp add: Handle_def)
next
  case False
  show ?thesis
  proof (cases "ch_closed w")
    case True
    with assms(1) have "ctx_done w" by (simp add: pipe_inv_def)
    with True False assms(2) show ?thesis by (simp add: Handle_def Let_def)
  next
    case op: False
    from pipe_inv_open [OF assms(1) op] have o: "\<not> ctx_done w" "\<not> errCh_closed w" by simp_all
    let ?w1 = "w\<lparr>loggers := (loggers w)[al := (loggers w ! al)\<lparr>dropped := dropped (loggers w ! al) + 1\<rparr>]\<rparr>"
    from o(2) have "\<not> errCh_closed ?w1" by simp
    from report_open [OF this, of "loggers w ! al" ErrChannelFull]
    have R: "report (loggers w ! al) ErrChannelFull ?w1 =
        Inr (?w1\<lparr>errCh_buf := (if errCh (loggers w ! al) \<noteq> None \<and> length (errCh_buf w) < errCh_cap
                                 then errCh_buf w @ [ErrChannelFull] else errCh_buf w)\<rparr>)"
      by simp
    from False op o assms(2) show ?thesis
      by (simp add: Handle_def Let_def R)
  qed
qed

lemma Handle_inv:
  assumes "pipe_inv w" "Handle al r pick w = Inr (e, w')"
  shows "pipe_inv w' \<and> map closed (loggers w') = map closed (loggers w)"
proof -
  from assms(2) have al: "al < length (loggers w)"
    by (auto simp: Handle_def split: if_splits)
  note T = Handle_table [OF assms(1) al, of r pick]
  show ?thesis
  proof (cases "closed (loggers w ! al) \<or> ch_closed w")
    case True
    with T assms show ?thesis by (auto split: if_splits)
  next
    case False
    then have nc: "\<not> closed (loggers w ! al)" and op: "\<not> ch_closed w" by simp_all
    from pipe_inv_open [OF assms(1) op] have o: "\<not> ctx_done w" "\<not> errCh_closed w"
      "consumer w \<noteq> Returned" by simp_all
    have fl: "map closed ((loggers w)[al := (loggers w ! al)\<lparr>total_al := n\<rparr>]) = map closed (loggers w)"
      "map closed ((loggers w)[al := (loggers w ! al)\<lparr>dropped := n\<rparr>]) = map closed (loggers w)" for n
      using al by (simp_all add: flags_update)
    from assms(1) have ne: "loggers w \<noteq> []" by (simp add: pipe_inv_def)
    from T assms(2) nc op have "map closed (loggers w') = map closed (loggers w) \<and>
        loggers w' \<noteq> [] \<and> ch_closed w' = ch_closed w \<and> ctx_done w' = ctx_done w \<and>
        errCh_closed w' = errCh_closed w \<and>
        (consumer w' = consumer w \<and> (ch_buf w' = ch_buf w \<or> consumer w \<noteq> Parked) \<or>
         consumer w' = Handling r)"
      using fl ne by (auto split: if_splits)
    with assms(1) o op show ?thesis by (auto simp: pipe_inv_def)
  qed
qed

lemma process_record_open:
  assumes "loggers w \<noteq> []" "\<not> errCh_closed w"
  shows "\<exists>w'. process_record sink r w = Inr w' \<and> errs_added w w'"
proof (cases "sink (baseHandler (loggers w ! 0)) r")
  case None
  with assms show ?thesis by (simp add: process_record_def errs_added_refl)
next
  case (Some err)
  with assms report_errs_added [OF assms(2), of "loggers w ! 0" err] show ?thesis
    by (simp add: process_record_def)
qed

lemma drain_records_open:
  assumes "loggers w \<noteq> []" "\<not> errCh_closed w"
  shows "\<exists>w'. drain_records sink sched rs w = Inr w' \<and> errs_added w w'"
  using assms
proof (induction sink sched rs w rule: drain_records.induct)
  case (1 sink sched w)
  then show ?case by (simp add: errs_added_refl)
next
  case (2 sink r rest w)
  then show ?case by simp
next
  case (3 sink by_process sched r rest w)
  show ?case
  proof (cases by_process)
    case False
    with 3 show ?thesis by simp
  next
    case True
    from process_record_open [OF "3.prems", of sink r] obtain w1 where
      1: "process_record sink r w = Inr w1" "errs_added w w1" by blast
    from 1(2) "3.prems" have "loggers w1 \<noteq> []" "\<not> errCh_closed w1"
      by (simp_all add: errs_added_def)
    from "3.IH"(1) [OF True this] obtain w2 where
      "drain_records sink sched rest w1 = Inr w2" "errs_added w1 w2" by blast
    with 1 True show ?thesis by (auto intro: errs_added_trans)
  qed
qed

lemma process_step_inv:
  assumes "pipe_inv w"
  shows "\<exists>w'. process_step sink pick w = Inr w' \<and> pipe_inv w' \<and> loggers w' = loggers w"
proof (cases "consumer w")
  case Returned
  with assms show ?thesis by (simp add: process_step_def)
next
  case (Handling r)
  let ?w0 = "w\<lparr>consumer := AtSelect\<rparr>"
  from assms Handling have i0: "pipe_inv ?w0" and "loggers ?w0 \<noteq> []" "\<not> errCh_closed ?w0"
    by (simp_all add: pipe_inv_def)
  from process_record_open [OF this(2,3), of sink r] obtain w' where
    "process_record sink r ?w0 = Inr w'" "errs_added ?w0 w'" by blast
  with i0 Handling errs_added_inv [of ?w0 w'] show ?thesis
    by (simp add: process_step_def errs_added_def)
next
  case AtSelect
  with assms show ?thesis
    by (cases "ch_buf w")
      (auto simp: process_step_def process_exit_def pipe_inv_def Let_def)
next
  case Parked
  with assms show ?thesis
    by (cases "ch_buf w")
      (auto simp: process_step_def process_exit_def pipe_inv_def Let_def)
qed

lemma drain_and_exit:
  assumes "pipe_inv w1" "ch_closed w1" "consumer w1 \<noteq> Returned"
  shows "\<exists>w'. bind_p (drain_records sink sched (ch_buf w1) (w1\<lparr>ch_buf := []\<rparr>)) process_exit = Inr w' \<and>
           pipe_inv w' \<and> loggers w' = loggers w1 \<and> ch_closed w' \<and>
           (\<exists>es. errCh_buf w' = errCh_buf w1 @ es)"
proof -
  let ?w2 = "w1\<lparr>ch_buf := []\<rparr>"
  from assms have "loggers ?w2 \<noteq> []" "\<not> errCh_closed ?w2" by (simp_all add: pipe_inv_def)
  from drain_records_open [OF this, of sink sched "ch_buf w1"] obtain w3 where
    D: "drain_records sink sched (ch_buf w1) ?w2 = Inr w3" "errs_added ?w2 w3" by blast
  from D(2) assms have E: "process_exit w3 = Inr (w3\<lparr>errCh_closed := True, consumer := Returned\<rparr>)"
    by (simp add: process_exit_def errs_added_def pipe_inv_def)
  from D(2) assms have "pipe_inv (w3\<lparr>errCh_closed := True, consumer := Returned\<rparr>)"
    by (simp add: pipe_inv_def errs_added_def)
  with D E assms(2) show ?thesis by (auto simp: errs_added_def)
qed

lemma shutdown_ok:
  assumes "pipe_inv w" "ch_closed w"
  shows "\<exists>w'. shutdown sink sched w = Inr w' \<and> pipe_inv w' \<and> loggers w' = loggers w \<and>
           ch_closed w' \<and> (\<exists>es. errCh_buf w' = errCh_buf w @ es)"
proof (cases "consumer w")
  case Returned
  with assms have "shutdown sink sched w = Inr (w\<lparr>ch_buf := []\<rparr>)" "pipe_inv (w\<lparr>ch_buf := []\<rparr>)"
    by (simp_all add: shutdown_def pipe_inv_def)
  with assms(2) show ?thesis by simp
next
  case (Handling r)
  let ?w0 = "w\<lparr>consumer := AtSelect\<rparr>"
  from assms Handling have i0: "pipe_inv ?w0" and "loggers ?w0 \<noteq> []" "\<not> errCh_closed ?w0"
    by (simp_all add: pipe_inv_def)
  from process_record_open [OF this(2,3), of sink r] obtain w1 where
    P: "process_record sink r ?w0 = Inr w1" "errs_added ?w0 w1" by blast
  from P(2) i0 assms(2) have 1: "pipe_inv w1" "ch_closed w1" "consumer w1 \<noteq> Returned"
    using errs_added_inv [of ?w0 w1] by (simp_all add: errs_added_def)
  from drain_and_exit [OF 1, of sink sched] obtain w' where
    "bind_p (drain_records sink sched (ch_buf w1) (w1\<lparr>ch_buf := []\<rparr>)) process_exit = Inr w'"
    "pipe_inv w'" "loggers w' = loggers w1" "ch_closed w'" "\<exists>es. errCh_buf w' = errCh_buf w1 @ es"
    by blast
  with P Handling show ?thesis by (auto simp: shutdown_def errs_added_def)
next
  case AtSelect
  with assms have "consumer w \<noteq> Returned" by simp
  from drain_and_exit [OF assms this, of sink sched] AtSelect show ?thesis
    by (simp add: shutdown_def)
next
  case Parked
  with assms have "consumer w \<noteq> Returned" by simp
  from drain_and_exit [OF assms this, of sink sched] Parked show ?thesis
    by (simp add: shutdown_def)
qed


lemma closed_update_idem: "closed l \<Longrightarrow> l\<lparr>closed := True\<rparr> = l"
  by (cases l) simp

lemma pipe_inv_closing:
  assumes "pipe_inv w" "al < length (loggers w)"
  shows "pipe_inv (w\<lparr>loggers := (loggers w)[al := l'], ch_closed := True, ctx_done := True\<rparr>)"
  using assms by (auto simp: pipe_inv_def)

lemma Close_closed:
  "al < length (loggers w) \<Longrightarrow> closed (loggers w ! al) \<Longrightarrow>
   Close al sink sched timed_out w = Inr (None, w)"
  by (simp add: Close_def)

lemma Close_other_closed:
  "al < length (loggers w) \<Longrightarrow> \<not> closed (loggers w ! al) \<Longrightarrow> ch_closed w \<Longrightarrow>
   Close al sink sched timed_out w = Inl CloseOfClosedChannel"
  by (simp add: Close_def Let_def)

lemma Close_timed_out:
  "al < length (loggers w) \<Longrightarrow> \<not> closed (loggers w ! al) \<Longrightarrow> \<not> ch_closed w \<Longrightarrow>
   Close al sink sched True w =
     Inr (Some ErrCloseTimeout,
       w\<lparr>loggers := (loggers w)[al := (loggers w ! al)\<lparr>closed := True\<rparr>],
         ch_closed := True, ctx_done := True\<rparr>)"
  by (simp add: Close_def Let_def)

lemma Close_open:
  assumes "pipe_inv w" "al < length (loggers w)" "\<not> ch_closed w"
  shows "\<exists>w3. shutdown sink sched
             (w\<lparr>loggers := (loggers w)[al := (loggers w ! al)\<lparr>closed := True\<rparr>],
               ch_closed := True, ctx_done := True\<rparr>) = Inr w3 \<and>
           Close al sink sched False w = Inr (collectErrors ((loggers w ! al)\<lparr>closed := True\<rparr>) w3) \<and>
           pipe_inv w3 \<and>
           loggers w3 = (loggers w)[al := (loggers w ! al)\<lparr>closed := True\<rparr>] \<and>
           ch_closed w3 \<and> (\<exists>es. errCh_buf w3 = errCh_buf w @ es)"
proof -
  let ?l = "(loggers w ! al)\<lparr>closed := True\<rparr>"
  let ?w2 = "w\<lparr>loggers := (loggers w)[al := ?l], ch_closed := True, ctx_done := True\<rparr>"
  from assms(1,2) have i2: "pipe_inv ?w2" by (rule pipe_inv_closing)
  have c2: "ch_closed ?w2" by simp
  from shutdown_ok [OF i2 c2, of sink sched] obtain w3 where
    3: "shutdown sink sched ?w2 = Inr w3" "pipe_inv w3" "loggers w3 = loggers ?w2" "ch_closed w3"
      "\<exists>es. errCh_buf w3 = errCh_buf ?w2 @ es"
    by blast
  from pipe_inv_closed_flag [OF assms(1,2)] assms(3) have nc: "\<not> closed (loggers w ! al)" by blast
  with assms(2,3) 3(1) have "Close al sink sched False w = Inr (collectErrors ?l w3)"
    by (simp add: Close_def Let_def)
  with 3 show ?thesis by simp
qed

lemma collectErrors_result:
  "collectErrors l w =
     ((if errCh l = None \<or> errCh_buf w = [] then None else Some (ErrJoin (errCh_buf w))),
      (if errCh l = None then w else w\<lparr>errCh_buf := []\<rparr>))"
  by (simp add: collectErrors_def Let_def split: option.splits)

lemma collectErrors_inv:
  "pipe_inv (snd (collectErrors l w)) = pipe_inv w \<and> loggers (snd (collectErrors l w)) = loggers w \<and>
   ch_closed (snd (collectErrors l w)) = ch_closed w"
  by (simp add: collectErrors_result pipe_inv_def)

lemma Close_inv:
  assumes "pipe_inv w" "Close al sink sched timed_out w = Inr (e, w')"
  shows "pipe_inv w' \<and> al < length (loggers w) \<and>
         loggers w' = (loggers w)[al := (loggers w ! al)\<lparr>closed := True\<rparr>] \<and> ch_closed w'"
proof -
  from assms(2) have al: "al < length (loggers w)"
    by (auto simp: Close_def split: if_splits)
  show ?thesis
  proof (cases "closed (loggers w ! al)")
    case True
    with Close_closed [OF al True, of sink sched timed_out] assms
      pipe_inv_closed_flag [OF assms(1) al True] al
    show ?thesis by (simp add: closed_update_idem)
  next
    case False
    show ?thesis
    proof (cases "ch_closed w")
      case True
      with Close_other_closed [OF al False True, of sink sched timed_out] assms(2)
      show ?thesis by simp
    next
      case op: False
      show ?thesis
      proof (cases timed_out)
        case True
        with Close_timed_out [OF al False op, of sink sched] assms(2)
          pipe_inv_closing [OF assms(1) al, of "(loggers w ! al)\<lparr>closed := True\<rparr>"] al
        show ?thesis by auto
      next
        case t: False
        from Close_open [OF assms(1) al op, of sink sched] obtain w3 where
          3: "Close al sink sched False w = Inr (collectErrors ((loggers w ! al)\<lparr>closed := True\<rparr>) w3)"
            "pipe_inv w3" "loggers w3 = (loggers w)[al := (loggers w ! al)\<lparr>closed := True\<rparr>]"
            "ch_closed w3"
          by blast
        from 3(1) t assms(2) have "w' = snd (collectErrors ((loggers w ! al)\<lparr>closed := True\<rparr>) w3)"
          by simp
        with 3 collectErrors_inv [of "(loggers w ! al)\<lparr>closed := True\<rparr>" w3] al
        show ?thesis by simp
      qed
    qed
  qed
qed

lemma With_inv:
  assumes "pipe_inv w" "closed l' = False"
  shows "pipe_inv (w\<lparr>loggers := loggers w @ [l']\<rparr>)"
  using assms by (auto simp: pipe_inv_def)

lemma WithAttrs_result:
  "al < length (loggers w) \<Longrightarrow>
   WithAttrs al attrs w =
     Inr (length (loggers w),
       w\<lparr>loggers := loggers w @
           [\<lparr>baseHandler = HandlerWithAttrs (baseHandler (loggers w ! al)) attrs, errCh = None,
             dropped = 0, total_al = 0, closed = False\<rparr>]\<rparr>)"
  by (simp add: WithAttrs_def)

lemma WithGroup_result:
  "al < length (loggers w) \<Longrightarrow>
   WithGroup al name w =
     Inr (length (loggers w),
       w\<lparr>loggers := loggers w @
           [\<lparr>baseHandler = HandlerWithGroup (baseHandler (loggers w ! al)) name, errCh = None,
             dropped = 0, total_al = 0, closed = False\<rparr>]\<rparr>)"
  by (simp add: WithGroup_def)

definition flags_step :: "logger_op \<Rightarrow> pipeline \<Rightarrow> pipeline \<Rightarrow> bool" where
  "flags_step op w w1 \<longleftrightarrow>
     length (loggers w) \<le> length (loggers w1) \<and>
     (\<forall>a < length (loggers w1).
        closed (loggers w1 ! a) = (a < length (loggers w) \<and> closed (loggers w ! a) \<or> closes a op))"

lemma apply_logger_op_inv:
  assumes "pipe_inv w" "apply_logger_op op w = Inr w1"
  shows "pipe_inv w1 \<and> flags_step op w w1"
proof (cases op)
  case (CallHandle al r pick)
  with assms(2) obtain e where H: "Handle al r pick w = Inr (e, w1)"
    by (auto simp: bind_p_eq_Inr)
  from Handle_inv [OF assms(1) H] have i: "pipe_inv w1"
    and m: "map closed (loggers w1) = map closed (loggers w)" by simp_all
  from m have len: "length (loggers w1) = length (loggers w)" by (rule map_eq_imp_length_eq)
  have "closed (loggers w1 ! a) = closed (loggers w ! a)" if "a < length (loggers w1)" for a
    using that m len by (metis nth_map)
  with i len CallHandle show ?thesis by (simp add: flags_step_def)
next
  case (CallClose al sink sched t)
  with assms(2) obtain e where C: "Close al sink sched t w = Inr (e, w1)"
    by (auto simp: bind_p_eq_Inr)
  from Close_inv [OF assms(1) C] have i: "pipe_inv w1" and al: "al < length (loggers w)"
    and l: "loggers w1 = (loggers w)[al := (loggers w ! al)\<lparr>closed := True\<rparr>]" by simp_all
  from l al have "closed (loggers w1 ! a) = (closed (loggers w ! a) \<or> a = al)"
    if "a < length (loggers w)" for a
    using that by (cases "a = al") simp_all
  with i l CallClose show ?thesis by (auto simp: flags_step_def)
next
  case (CallWithAttrs al attrs)
  with assms(2) have al: "al < length (loggers w)"
    by (auto simp: WithAttrs_def bind_p_eq_Inr split: if_splits)
  from WithAttrs_result [OF al, of attrs] CallWithAttrs assms(2) obtain l' where
    1: "w1 = w\<lparr>loggers := loggers w @ [l']\<rparr>" "closed l' = False"
    by auto
  from With_inv [OF assms(1) 1(2)] 1 CallWithAttrs show ?thesis
    by (auto simp: flags_step_def nth_append)
next
  case (CallWithGroup al name)
  with assms(2) have al: "al < length (loggers w)"
    by (auto simp: WithGroup_def bind_p_eq_Inr split: if_splits)
  from WithGroup_result [OF al, of name] CallWithGroup assms(2) obtain l' where
    1: "w1 = w\<lparr>loggers := loggers w @ [l']\<rparr>" "closed l' = False"
    by auto
  from With_inv [OF assms(1) 1(2)] 1 CallWithGroup show ?thesis
    by (auto simp: flags_step_def nth_append)
next
  case (ProcessStep sink pick)
  from process_step_inv [OF assms(1), of sink pick] assms(2) ProcessStep
  show ?thesis by (auto simp: flags_step_def)
next
  case DrainStep
  with assms show ?thesis
    by (auto simp: flags_step_def drain_step_def pipe_inv_def split: list.splits)
qed

lemma run_logger_ops_inv:
  "pipe_inv w \<Longrightarrow> run_logger_ops ops w = Inr w' \<Longrightarrow>
   pipe_inv w' \<and> length (loggers w) \<le> length (loggers w') \<and>
   (\<forall>a < length (loggers w').
      closed (loggers w' ! a) = (a < length (loggers w) \<and> closed (loggers w ! a) \<or>
        list_ex (closes a) ops))"
proof (induction ops arbitrary: w)
  case Nil
  then show ?case by auto
next
  case (Cons op ops)
  from Cons.prems(2) obtain w1 where
    1: "apply_logger_op op w = Inr w1" "run_logger_ops ops w1 = Inr w'"
    by (auto simp: bind_p_eq_Inr)
  from apply_logger_op_inv [OF Cons.prems(1) 1(1)] have i1: "pipe_inv w1"
    and f1: "flags_step op w w1" by simp_all
  from Cons.IH [OF i1 1(2)] have i': "pipe_inv w'"
    and len: "length (loggers w1) \<le> length (loggers w')"
    and fl: "\<And>a. a < length (loggers w') \<Longrightarrow>
      closed (loggers w' ! a) = (a < length (loggers w1) \<and> closed (loggers w1 ! a) \<or>
        list_ex (closes a) ops)"
    by simp_all
  have "closed (loggers w' ! a) = (a < length (loggers w) \<and> closed (loggers w ! a) \<or>
        list_ex (closes a) (op # ops))" if a: "a < length (loggers w')" for a
  proof (cases "a < length (loggers w1)")
    case True
    with f1 have "closed (loggers w1 ! a) = (a < length (loggers w) \<and> closed (loggers w ! a) \<or> closes a op)"
      by (simp add: flags_step_def)
    with fl [OF a] True show ?thesis by auto
  next
    case False
    with f1 have "\<not> a < length (loggers w)" by (simp add: flags_step_def)
    moreover have "\<not> closes a op"
    proof
      assume c: "closes a op"
      then obtain sink sched t where "op = CallClose a sink sched t" by (cases op) auto
      with 1(1) have "a < length (loggers w)"
        by (auto simp: bind_p_eq_Inr Close_def split: if_splits)
      with f1 False show False by (simp add: flags_step_def)
    qed
    ultimately show ?thesis using fl [OF a] False by simp
  qed
  with i' len f1 show ?case by (auto simp: flags_step_def)
qed

lemma logger_after_inv:
  assumes "logger_after h bufferSize ops = Inr w"
  shows "pipe_inv w"
    and "al < length (loggers w) \<Longrightarrow> closed (loggers w ! al) = list_ex (closes al) ops"
proof -
  from assms obtain w0 where 0: "NewAsyncLogger h bufferSize = Inr (0, w0)"
    "run_logger_ops ops w0 = Inr w"
    by (auto simp: logger_after_def bind_p_eq_Inr NewAsyncLogger_def split: if_splits)
  from 0(1) have i0: "pipe_inv w0" and l0: "length (loggers w0) = 1" "\<not> closed (loggers w0 ! 0)"
    by (auto simp: NewAsyncLogger_def pipe_inv_def split: if_splits)
  from run_logger_ops_inv [OF i0 0(2)] show "pipe_inv w" by simp
  assume "al < length (loggers w)"
  with run_logger_ops_inv [OF i0 0(2)] l0 show "closed (loggers w ! al) = list_ex (closes al) ops"
    by (cases "al = 0") auto
qed









lemma Handle_other_dropped:
  assumes "Handle d r pick w = Inr (e, w')" "d \<noteq> al"
  shows "GetDroppedLogsCount al w' = GetDroppedLogsCount al w"
proof -
  have "loggers w' ! al = loggers w ! al"
    using assms
    by (auto simp: Handle_def Let_def bind_p_eq_Inr report_def
        split: if_splits option.splits)
  then show ?thesis by (simp add: GetDroppedLogsCount_def)
qed

text \<open>
  Claim C10. On every logger object \<open>al\<close> of a pipeline, after any history, \<^verbatim>\<open>WithAttrs\<close> and
  \<^verbatim>\<open>WithGroup\<close> return a new object on the same channel and context, with zero counters, an
  unset \<^verbatim>\<open>closed\<close> flag and a \<^verbatim>\<open>nil\<close> error channel. For the object \<open>d\<close> that either returns:
  \<^verbatim>\<open>Close\<close> on \<open>al\<close> returns unless the channel was closed through another object, and after it
  \<^verbatim>\<open>Handle\<close> on \<open>al\<close> returns the "closed" error, while \<^verbatim>\<open>Handle\<close> on \<open>d\<close> never does: it returns
  \<^verbatim>\<open>context.Canceled\<close> or panics on the closed channel, as the \<^verbatim>\<open>select\<close> chooses. While the
  channel is open, a record handled through \<open>d\<close> is handed to the parked consumer or queued
  on the shared channel, or counted in \<open>d\<close>'s own dropped counter, without a report; and no
  \<^verbatim>\<open>Handle\<close> on \<open>d\<close> changes what \<^verbatim>\<open>GetDroppedLogsCount\<close> returns on \<open>al\<close>. The same holds at any later
  point of a history: \<^verbatim>\<open>Handle\<close> on an object on which \<^verbatim>\<open>Close\<close> was not called never returns the
  "closed" error, whatever was closed through the other objects, and \<^verbatim>\<open>Handle\<close> on an object
  other than \<open>al\<close> never changes what \<^verbatim>\<open>GetDroppedLogsCount\<close> returns on \<open>al\<close>.
\<close>

theorem derived_handler_own_state:
  assumes "logger_after h bufferSize ops = Inr w" "al < length (loggers w)"
  shows
    "WithAttrs al attrs w =
       Inr (length (loggers w),
         w\<lparr>loggers := loggers w @
             [\<lparr>baseHandler = HandlerWithAttrs (baseHandler (loggers w ! al)) attrs, errCh = None,
               dropped = 0, total_al = 0, closed = False\<rparr>]\<rparr>) \<and>
     WithGroup al name w =
       Inr (length (loggers w),
         w\<lparr>loggers := loggers w @
             [\<lparr>baseHandler = HandlerWithGroup (baseHandler (loggers w ! al)) name, errCh = None,
               dropped = 0, total_al = 0, closed = False\<rparr>]\<rparr>) \<and>
     (\<forall>d w1. WithAttrs al attrs w = Inr (d, w1) \<or> WithGroup al name w = Inr (d, w1) \<longrightarrow>
        d \<noteq> al \<and>
        (closed (loggers w ! al) \<or> \<not> ch_closed w \<longrightarrow>
           (\<exists>e w2. Close al sink sched timed_out w1 = Inr (e, w2))) \<and>
        (\<forall>e w2. Close al sink sched timed_out w1 = Inr (e, w2) \<longrightarrow>
           Handle al r pick w2 = Inr (Some ErrClosed, w2) \<and>
           Handle d r pick w2 =
             (if pick then Inl SendOnClosedChannel else Inr (Some ErrCanceled, w2))) \<and>
        (\<not> ch_closed w \<longrightarrow>
           Handle d r pick w1 =
             (if consumer w = Parked then
                Inr (None, w1\<lparr>consumer := Handling r,
                       loggers := (loggers w1)[d := (loggers w1 ! d)\<lparr>total_al := 1\<rparr>]\<rparr>)
              else if length (ch_buf w) < ch_cap w then
                Inr (None, w1\<lparr>ch_buf := ch_buf w @ [r],
                       loggers := (loggers w1)[d := (loggers w1 ! d)\<lparr>total_al := 1\<rparr>]\<rparr>)
              else
                Inr (None, w1\<lparr>loggers := (loggers w1)[d := (loggers w1 ! d)\<lparr>dropped := 1\<rparr>]\<rparr>))) \<and>
        (\<forall>e3 w3. Handle d r pick w1 = Inr (e3, w3) \<longrightarrow>
           GetDroppedLogsCount al w3 = GetDroppedLogsCount al w1)) \<and>
     (\<forall>d w'. d < length (loggers w) \<and> \<not> list_ex (closes d) ops \<longrightarrow>
        Handle d r pick w \<noteq> Inr (Some ErrClosed, w')) \<and>
     (\<forall>d e3 w3. d \<noteq> al \<and> Handle d r pick w = Inr (e3, w3) \<longrightarrow>
        GetDroppedLogsCount al w3 = GetDroppedLogsCount al w)"
proof -
  note I = logger_after_inv(1) [OF assms(1)]
  note A = WithAttrs_result [OF assms(2), of attrs]
  note G = WithGroup_result [OF assms(2), of name]
  have main: "d \<noteq> al \<and>
        (closed (loggers w ! al) \<or> \<not> ch_closed w \<longrightarrow>
           (\<exists>e w2. Close al sink sched timed_out w1 = Inr (e, w2))) \<and>
        (\<forall>e w2. Close al sink sched timed_out w1 = Inr (e, w2) \<longrightarrow>
           Handle al r pick w2 = Inr (Some ErrClosed, w2) \<and>
           Handle d r pick w2 =
             (if pick then Inl SendOnClosedChannel else Inr (Some ErrCanceled, w2))) \<and>
        (\<not> ch_closed w \<longrightarrow>
           Handle d r pick w1 =
             (if consumer w = Parked then
                Inr (None, w1\<lparr>consumer := Handling r,
                       loggers := (loggers w1)[d := (loggers w1 ! d)\<lparr>total_al := 1\<rparr>]\<rparr>)
              else if length (ch_buf w) < ch_cap w then
                Inr (None, w1\<lparr>ch_buf := ch_buf w @ [r],
                       loggers := (loggers w1)[d := (loggers w1 ! d)\<lparr>total_al := 1\<rparr>]\<rparr>)
              else
                Inr (None, w1\<lparr>loggers := (loggers w1)[d := (loggers w1 ! d)\<lparr>dropped := 1\<rparr>]\<rparr>))) \<and>
        (\<forall>e3 w3. Handle d r pick w1 = Inr (e3, w3) \<longrightarrow>
           GetDroppedLogsCount al w3 = GetDroppedLogsCount al w1)"
    if d: "d = length (loggers w)" and w1: "w1 = w\<lparr>loggers := loggers w @ [l']\<rparr>"
      and l': "errCh l' = None" "dropped l' = 0" "total_al l' = 0" "closed l' = False"
    for d w1 l'
  proof -
    from d assms(2) have dal: "d \<noteq> al" by simp
    have ld: "loggers w1 ! d = l'" and la: "loggers w1 ! al = loggers w ! al"
      and len: "length (loggers w1) = Suc d" and al1: "al < length (loggers w1)"
      using d w1 assms(2) by (simp_all add: nth_append)
    from With_inv [OF I l'(4)] w1 have i1: "pipe_inv w1" by simp
    have ret: "\<exists>e w2. Close al sink sched timed_out w1 = Inr (e, w2)"
      if c: "closed (loggers w ! al) \<or> \<not> ch_closed w"
    proof (cases "closed (loggers w ! al)")
      case True
      with Close_closed [OF al1, of sink sched timed_out] la show ?thesis by simp
    next
      case False
      with c have o: "\<not> ch_closed w1" using w1 by simp
      show ?thesis
      proof (cases timed_out)
        case True
        with Close_timed_out [OF al1 _ o, of sink sched] False la show ?thesis by simp
      next
        case t: False
        from Close_open [OF i1 al1 o, of sink sched] t show ?thesis by (cases timed_out) auto
      qed
    qed
    have after: "Handle al r pick w2 = Inr (Some ErrClosed, w2) \<and>
           Handle d r pick w2 =
             (if pick then Inl SendOnClosedChannel else Inr (Some ErrCanceled, w2))"
      if C: "Close al sink sched timed_out w1 = Inr (e, w2)" for e w2
    proof -
      from Close_inv [OF i1 C] have i2: "pipe_inv w2"
        and l2: "loggers w2 = (loggers w1)[al := (loggers w1 ! al)\<lparr>closed := True\<rparr>]"
        and c2: "ch_closed w2" by simp_all
      from l2 al1 len dal ld l' have f: "al < length (loggers w2)" "closed (loggers w2 ! al)"
        "d < length (loggers w2)" "\<not> closed (loggers w2 ! d)" by simp_all
      from Handle_table [OF i2 f(1), of r pick] f(2)
      have "Handle al r pick w2 = Inr (Some ErrClosed, w2)" by simp
      moreover from Handle_table [OF i2 f(3), of r pick] f(4) c2
      have "Handle d r pick w2 =
          (if pick then Inl SendOnClosedChannel else Inr (Some ErrCanceled, w2))" by simp
      ultimately show ?thesis by simp
    qed
    have opn: "Handle d r pick w1 =
             (if consumer w = Parked then
                Inr (None, w1\<lparr>consumer := Handling r,
                       loggers := (loggers w1)[d := (loggers w1 ! d)\<lparr>total_al := 1\<rparr>]\<rparr>)
              else if length (ch_buf w) < ch_cap w then
                Inr (None, w1\<lparr>ch_buf := ch_buf w @ [r],
                       loggers := (loggers w1)[d := (loggers w1 ! d)\<lparr>total_al := 1\<rparr>]\<rparr>)
              else
                Inr (None, w1\<lparr>loggers := (loggers w1)[d := (loggers w1 ! d)\<lparr>dropped := 1\<rparr>]\<rparr>))"
      if o: "\<not> ch_closed w"
    proof -
      have dl: "d < length (loggers w1)" using len by simp
      from Handle_table [OF i1 dl, of r pick] ld l' o w1 show ?thesis by simp
    qed
    have vis: "GetDroppedLogsCount al w3 = GetDroppedLogsCount al w1"
      if "Handle d r pick w1 = Inr (e3, w3)" for e3 w3
      using that dal by (rule Handle_other_dropped)
    from dal ret after opn vis show ?thesis by blast
  qed
  have "\<forall>d w1. WithAttrs al attrs w = Inr (d, w1) \<or> WithGroup al name w = Inr (d, w1) \<longrightarrow>
        d \<noteq> al \<and>
        (closed (loggers w ! al) \<or> \<not> ch_closed w \<longrightarrow>
           (\<exists>e w2. Close al sink sched timed_out w1 = Inr (e, w2))) \<and>
        (\<forall>e w2. Close al sink sched timed_out w1 = Inr (e, w2) \<longrightarrow>
           Handle al r pick w2 = Inr (Some ErrClosed, w2) \<and>
           Handle d r pick w2 =
             (if pick then Inl SendOnClosedChannel else Inr (Some ErrCanceled, w2))) \<and>
        (\<not> ch_closed w \<longrightarrow>
           Handle d r pick w1 =
             (if consumer w = Parked then
                Inr (None, w1\<lparr>consumer := Handling r,
                       loggers := (loggers w1)[d := (loggers w1 ! d)\<lparr>total_al := 1\<rparr>]\<rparr>)
              else if length (ch_buf w) < ch_cap w then
                Inr (None, w1\<lparr>ch_buf := ch_buf w @ [r],
                       loggers := (loggers w1)[d := (loggers w1 ! d)\<lparr>total_al := 1\<rparr>]\<rparr>)
              else
                Inr (None, w1\<lparr>loggers := (loggers w1)[d := (loggers w1 ! d)\<lparr>dropped := 1\<rparr>]\<rparr>))) \<and>
        (\<forall>e3 w3. Handle d r pick w1 = Inr (e3, w3) \<longrightarrow>
           GetDroppedLogsCount al w3 = GetDroppedLogsCount al w1)"
  proof (intro allI impI)
    fix d w1
    assume "WithAttrs al attrs w = Inr (d, w1) \<or> WithGroup al name w = Inr (d, w1)"
    with A G obtain l' where "d = length (loggers w)" "w1 = w\<lparr>loggers := loggers w @ [l']\<rparr>"
      "errCh l' = None" "dropped l' = 0" "total_al l' = 0" "closed l' = False"
      by auto
    then show "d \<noteq> al \<and>
        (closed (loggers w ! al) \<or> \<not> ch_closed w \<longrightarrow>
           (\<exists>e w2. Close al sink sched timed_out w1 = Inr (e, w2))) \<and>
        (\<forall>e w2. Close al sink sched timed_out w1 = Inr (e, w2) \<longrightarrow>
           Handle al r pick w2 = Inr (Some ErrClosed, w2) \<and>
           Handle d r pick w2 =
             (if pick then Inl SendOnClosedChannel else Inr (Some ErrCanceled, w2))) \<and>
        (\<not> ch_closed w \<longrightarrow>
           Handle d r pick w1 =
             (if consumer w = Parked then
                Inr (None, w1\<lparr>consumer := Handling r,
                       loggers := (loggers w1)[d := (loggers w1 ! d)\<lparr>total_al := 1\<rparr>]\<rparr>)
              else if length (ch_buf w) < ch_cap w then
                Inr (None, w1\<lparr>ch_buf := ch_buf w @ [r],
                       loggers := (loggers w1)[d := (loggers w1 ! d)\<lparr>total_al := 1\<rparr>]\<rparr>)
              else
                Inr (None, w1\<lparr>loggers := (loggers w1)[d := (loggers w1 ! d)\<lparr>dropped := 1\<rparr>]\<rparr>))) \<and>
        (\<forall>e3 w3. Handle d r pick w1 = Inr (e3, w3) \<longrightarrow>
           GetDroppedLogsCount al w3 = GetDroppedLogsCount al w1)"
      by (rule main)
  qed
  note D = this
  have N: "\<forall>d w'. d < length (loggers w) \<and> \<not> list_ex (closes d) ops \<longrightarrow>
        Handle d r pick w \<noteq> Inr (Some ErrClosed, w')"
  proof (intro allI impI)
    fix d w'
    assume d: "d < length (loggers w) \<and> \<not> list_ex (closes d) ops"
    then have dl: "d < length (loggers w)" by simp
    from logger_after_inv(2) [OF assms(1) dl] d have "\<not> closed (loggers w ! d)" by simp
    with Handle_table [OF I dl, of r pick]
    show "Handle d r pick w \<noteq> Inr (Some ErrClosed, w')" by (simp split: if_splits)
  qed
  have V: "\<forall>d e3 w3. d \<noteq> al \<and> Handle d r pick w = Inr (e3, w3) \<longrightarrow>
        GetDroppedLogsCount al w3 = GetDroppedLogsCount al w"
    using Handle_other_dropped by blast
  from A G D N V show ?thesis by blast
qed

theorem derived_handler_own_state_witness:
  "logger_after (Sink ''db'') 1 [CallHandle 0 (Record 0 ''a'') False] =
     Inr \<lparr>ch_buf = [Record 0 ''a''], ch_cap = 1, ch_closed = False, ctx_done = False,
        errCh_buf = [], errCh_closed = False, consumer = AtSelect,
        loggers = [\<lparr>baseHandler = Sink ''db'', errCh = Some (), dropped = 0, total_al = 1,
                    closed = False\<rparr>]\<rparr> \<and>
   WithAttrs 0 [(''k'', ''v'')]
       \<lparr>ch_buf = [Record 0 ''a''], ch_cap = 1, ch_closed = False, ctx_done = False,
        errCh_buf = [], errCh_closed = False, consumer = AtSelect,
        loggers = [\<lparr>baseHandler = Sink ''db'', errCh = Some (), dropped = 0, total_al = 1,
                    closed = False\<rparr>]\<rparr> =
     Inr (1,
       \<lparr>ch_buf = [Record 0 ''a''], ch_cap = 1, ch_closed = False, ctx_done = False,
        errCh_buf = [], errCh_closed = False, consumer = AtSelect,
        loggers = [\<lparr>baseHandler = Sink ''db'', errCh = Some (), dropped = 0, total_al = 1,
                    closed = False\<rparr>,
                   \<lparr>baseHandler = HandlerWithAttrs (Sink ''db'') [(''k'', ''v'')], errCh = None, dropped = 0,
                    total_al = 0, closed = False\<rparr>]\<rparr>) \<and>
   WithGroup 0 ''g''
       \<lparr>ch_buf = [Record 0 ''a''], ch_cap = 1, ch_closed = False, ctx_done = False,
        errCh_buf = [], errCh_closed = False, consumer = AtSelect,
        loggers = [\<lparr>baseHandler = Sink ''db'', errCh = Some (), dropped = 0, total_al = 1,
                    closed = False\<rparr>]\<rparr> =
     Inr (1,
       \<lparr>ch_buf = [Record 0 ''a''], ch_cap = 1, ch_closed = False, ctx_done = False,
        errCh_buf = [], errCh_closed = False, consumer = AtSelect,
        loggers = [\<lparr>baseHandler = Sink ''db'', errCh = Some (), dropped = 0, total_al = 1,
                    closed = False\<rparr>,
                   \<lparr>baseHandler = HandlerWithGroup (Sink ''db'') ''g'', errCh = None, dropped = 0,
                    total_al = 0, closed = False\<rparr>]\<rparr>) \<and>
   Handle 1 (Record 0 ''b'') False
       \<lparr>ch_buf = [Record 0 ''a''], ch_cap = 1, ch_closed = False, ctx_done = False,
        errCh_buf = [], errCh_closed = False, consumer = AtSelect,
        loggers = [\<lparr>baseHandler = Sink ''db'', errCh = Some (), dropped = 0, total_al = 1,
                    closed = False\<rparr>,
                   \<lparr>baseHandler = HandlerWithGroup (Sink ''db'') ''g'', errCh = None, dropped = 0,
                    total_al = 0, closed = False\<rparr>]\<rparr> =
     Inr (None,
       \<lparr>ch_buf = [Record 0 ''a''], ch_cap = 1, ch_closed = False, ctx_done = False,
        errCh_buf = [], errCh_closed = False, consumer = AtSelect,
        loggers = [\<lparr>baseHandler = Sink ''db'', errCh = Some (), dropped = 0, total_al = 1,
                    closed = False\<rparr>,
                   \<lparr>baseHandler = HandlerWithGroup (Sink ''db'') ''g'', errCh = None, dropped = 1,
                    total_al = 0, closed = False\<rparr>]\<rparr>) \<and>
   GetDroppedLogsCount 0
       \<lparr>ch_buf = [Record 0 ''a''], ch_cap = 1, ch_closed = False, ctx_done = False,
        errCh_buf = [], errCh_closed = False, consumer = AtSelect,
        loggers = [\<lparr>baseHandler = Sink ''db'', errCh = Some (), dropped = 0, total_al = 1,
                    closed = False\<rparr>,
                   \<lparr>baseHandler = HandlerWithGroup (Sink ''db'') ''g'', errCh = None, dropped = 1,
                    total_al = 0, closed = False\<rparr>]\<rparr> = 0"
proof -
  let ?w = "\<lparr>ch_buf = [Record 0 ''a''], ch_cap = 1, ch_closed = False, ctx_done = False,
        errCh_buf = [], errCh_closed = False, consumer = AtSelect,
        loggers = [\<lparr>baseHandler = Sink ''db'', errCh = Some (), dropped = 0, total_al = 1,
                    closed = False\<rparr>]\<rparr>"
  let ?wa = "\<lparr>ch_buf = [Record 0 ''a''], ch_cap = 1, ch_closed = False, ctx_done = False,
        errCh_buf = [], errCh_closed = False, consumer = AtSelect,
        loggers = [\<lparr>baseHandler = Sink ''db'', errCh = Some (), dropped = 0, total_al = 1,
                    closed = False\<rparr>,
                   \<lparr>baseHandler = HandlerWithAttrs (Sink ''db'') [(''k'', ''v'')], errCh = None, dropped = 0,
                    total_al = 0, closed = False\<rparr>]\<rparr>"
  let ?wg = "\<lparr>ch_buf = [Record 0 ''a''], ch_cap = 1, ch_closed = False, ctx_done = False,
        errCh_buf = [], errCh_closed = False, consumer = AtSelect,
        loggers = [\<lparr>baseHandler = Sink ''db'', errCh = Some (), dropped = 0, total_al = 1,
                    closed = False\<rparr>,
                   \<lparr>baseHandler = HandlerWithGroup (Sink ''db'') ''g'', errCh = None, dropped = 0,
                    total_al = 0, closed = False\<rparr>]\<rparr>"
  let ?wg1 = "\<lparr>ch_buf = [Record 0 ''a''], ch_cap = 1, ch_closed = False, ctx_done = False,
        errCh_buf = [], errCh_closed = False, consumer = AtSelect,
        loggers = [\<lparr>baseHandler = Sink ''db'', errCh = Some (), dropped = 0, total_al = 1,
                    closed = False\<rparr>,
                   \<lparr>baseHandler = HandlerWithGroup (Sink ''db'') ''g'', errCh = None, dropped = 1,
                    total_al = 0, closed = False\<rparr>]\<rparr>"
  have A: "logger_after (Sink ''db'') 1 [CallHandle 0 (Record 0 ''a'') False] = Inr ?w"
    by (simp add: logger_after_def NewAsyncLogger_def Handle_def Let_def)
  have B: "0 < length (loggers ?w)" by simp
  note T = derived_handler_own_state [OF A B, where attrs = "[(''k'', ''v'')]" and name = "''g''"
      and sched = "[]" and timed_out = False and r = "Record 0 ''b''" and pick = False]
  from T have WA: "WithAttrs 0 [(''k'', ''v'')] ?w = Inr (1, ?wa)" by simp
  from T have WG: "WithGroup 0 ''g'' ?w = Inr (1, ?wg)" by simp
  from T WG have "Handle 1 (Record 0 ''b'') False ?wg =
      Inr (None, ?wg\<lparr>loggers := (loggers ?wg)[1 := (loggers ?wg ! 1)\<lparr>dropped := 1\<rparr>]\<rparr>)"
    by simp
  then have H: "Handle 1 (Record 0 ''b'') False ?wg = Inr (None, ?wg1)" by simp
  have D: "GetDroppedLogsCount 0 ?wg1 = 0" by (simp add: GetDroppedLogsCount_def)
  from A WA WG H D show ?thesis by simp
qed

section \<open>The rotating file handler's retention sweep\<close>

text \<open>
  The functions of Go's \<^verbatim>\<open>strings\<close> package that \<^verbatim>\<open>cleanupOldLogs\<close> calls, on byte strings;
  \<^verbatim>\<open>Split\<close> is taken at a one-byte separator, as the sweep calls it with \<^verbatim>\<open>"_"\<close>.
\<close>

definition HasPrefix :: "string \<Rightarrow> string \<Rightarrow> bool" where
  "HasPrefix s pre \<longleftrightarrow> length pre \<le> length s \<and> take (length pre) s = pre"

definition HasSuffix :: "string \<Rightarrow> string \<Rightarrow> bool" where
  "HasSuffix s suffix \<longleftrightarrow> length suffix \<le> length s \<and> drop (length s - length suffix) s = suffix"

definition TrimSuffix :: "string \<Rightarrow> string \<Rightarrow> string" where
  "TrimSuffix s suffix = (if HasSuffix s suffix then take (length s - length suffix) s else s)"

fun Split :: "string \<Rightarrow> char \<Rightarrow> string list" where
  "Split [] sep = [[]]"
| "Split (c # cs) sep =
     (if c = sep then [] # Split cs sep
      else (case Split cs sep of p # ps \<Rightarrow> (c # p) # ps | [] \<Rightarrow> [[c]]))"

text \<open>
  Modelled from the spec: \<^verbatim>\<open>time.Parse("2006-01-02", s)\<close> of Go's standard library, whose source
  is not part of the repository. The spec calls for a valid date \<^verbatim>\<open>YYYY-MM-DD\<close>: the parse
  succeeds exactly on four digits, a hyphen, a two-digit month from 01 to 12, a hyphen and a
  two-digit day that exists in that month of that year, with nothing after it.
\<close>

definition isDigit :: "char \<Rightarrow> bool" where
  "isDigit c \<longleftrightarrow> (48::nat) \<le> of_char c \<and> (of_char c :: nat) \<le> 57"

definition digit_val :: "char \<Rightarrow> nat" where
  "digit_val c = of_char c - 48"

definition daysIn :: "nat \<Rightarrow> nat \<Rightarrow> nat" where
  "daysIn month year =
     (if month = 2 then
        (if year mod 4 = 0 \<and> (year mod 100 \<noteq> 0 \<or> year mod 400 = 0) then 29 else 28)
      else if month \<in> {4, 6, 9, 11} then 30 else 31)"

fun time_Parse_date :: "string \<Rightarrow> bool" where
  "time_Parse_date [y1, y2, y3, y4, s1, m1, m2, s2, d1, d2] =
     (isDigit y1 \<and> isDigit y2 \<and> isDigit y3 \<and> isDigit y4 \<and> s1 = CHR ''-'' \<and>
      isDigit m1 \<and> isDigit m2 \<and> s2 = CHR ''-'' \<and> isDigit d1 \<and> isDigit d2 \<and>
      (let year = 1000 * digit_val y1 + 100 * digit_val y2 + 10 * digit_val y3 + digit_val y4;
           month = 10 * digit_val m1 + digit_val m2;
           day = 10 * digit_val d1 + digit_val d2
       in 1 \<le> month \<and> month \<le> 12 \<and> 1 \<le> day \<and> day \<le> daysIn month year))"
| "time_Parse_date s = False"

text \<open>
  The fields of \<^verbatim>\<open>rotatingFileHandler\<close> that the sweep reads. \<^verbatim>\<open>maxAge\<close> is a \<^verbatim>\<open>time.Duration\<close>,
  an \<^verbatim>\<open>int64\<close> of nanoseconds, whose negation wraps. A \<^verbatim>\<open>time.Time\<close> keeps its seconds in an
  \<^verbatim>\<open>int64\<close> and its nanoseconds apart, so a wall-clock time plus a duration is exact: times
  are integers, in nanoseconds. A directory entry, as \<^verbatim>\<open>os.ReadDir\<close> lists it: its name,
  whether it is a directory, and the modification time that \<^verbatim>\<open>file.Info()\<close> returns (\<open>None\<close>
  when it fails).
\<close>

record rotatingFileHandler =
  dir :: string
  baseFileName :: string
  currentDate :: string
  maxAge :: "64 word"
  logRotationEnabled :: bool

record dir_entry =
  Name :: string
  IsDir :: bool
  Info :: "int option"

text \<open>
  \<^verbatim>\<open>cleanupOldLogs\<close>: the result is the list of the names it passes to \<^verbatim>\<open>os.Remove\<close>, in order.
  \<open>now\<close> is \<^verbatim>\<open>time.Now()\<close> and \<open>readDir\<close> is what \<^verbatim>\<open>os.ReadDir(r.dir)\<close> returns, \<open>None\<close> for an
  error. \<^verbatim>\<open>parts[1]\<close> is read only after the length check.
\<close>

fun cleanup_loop :: "rotatingFileHandler \<Rightarrow> int \<Rightarrow> dir_entry list \<Rightarrow> string list" where
  "cleanup_loop r cutoffTime [] = []"
| "cleanup_loop r cutoffTime (file # files) =
     (if \<not> IsDir file \<and> HasPrefix (Name file) (baseFileName r) \<and> HasSuffix (Name file) ''.log'' then
        (let parts = Split (Name file) CHR ''_'' in
         if length parts < 2 \<or> \<not> HasSuffix (parts ! 1) ''.log'' then cleanup_loop r cutoffTime files
         else
           let datePart = TrimSuffix (parts ! 1) ''.log'' in
           if \<not> time_Parse_date datePart then cleanup_loop r cutoffTime files
           else
             (case Info file of
                None \<Rightarrow> cleanup_loop r cutoffTime files
              | Some modTime \<Rightarrow>
                  if modTime < cutoffTime then Name file # cleanup_loop r cutoffTime files
                  else cleanup_loop r cutoffTime files))
      else cleanup_loop r cutoffTime files)"

definition cleanupOldLogs :: "rotatingFileHandler \<Rightarrow> int \<Rightarrow> dir_entry list option \<Rightarrow> string list" where
  "cleanupOldLogs r now readDir =
     (if \<not> logRotationEnabled r then []
      else
        (case readDir of
           None \<Rightarrow> []
         | Some files \<Rightarrow>
             let cutoffTime = now + sint (- maxAge r) in cleanup_loop r cutoffTime files))"

text \<open>
  The name that \<^verbatim>\<open>openNewFileIfNeeded\<close> gives the log file of a date, and the pattern of the
  claim: a name is \<^verbatim>\<open>{baseName}_{date}.log\<close> with a valid date.
\<close>

definition log_file_name :: "string \<Rightarrow> string \<Rightarrow> string" where
  "log_file_name base date = base @ ''_'' @ date @ ''.log''"

definition matches_pattern :: "string \<Rightarrow> string \<Rightarrow> bool" where
  "matches_pattern base name \<longleftrightarrow>
     (let date = take 10 (drop (length base + 1) name)
      in name = log_file_name base date \<and> time_Parse_date date)"


text \<open>
  Claim C3 fails on the code. With base name \<^verbatim>\<open>db\<close> (the one the repository configures) and
  every file older than the cutoff, the sweep removes \<^verbatim>\<open>db_2020-01-01.log\<close>, and keeps the
  file with an invalid date, \<^verbatim>\<open>db.log\<close> and the recent file, as the claim says; but it also
  removes \<^verbatim>\<open>dbx_2020-01-01.log\<close> and \<^verbatim>\<open>db_2020-01-01.log_old.log\<close>, which do not match the
  pattern. With base name \<^verbatim>\<open>my_db\<close> it never removes the handler's own expired file
  \<^verbatim>\<open>my_db_2020-01-01.log\<close>, which does match: the date is looked for in the second part of
  the name split at underscores.
\<close>

theorem cleanupOldLogs_name_check:
  "cleanupOldLogs
     \<lparr>dir = ''./logs'', baseFileName = ''db'', currentDate = ''2024-06-01'', maxAge = 30,
      logRotationEnabled = True\<rparr> 1000
     (Some [\<lparr>Name = ''db_2020-01-01.log'', IsDir = False, Info = Some 5\<rparr>,
            \<lparr>Name = ''dbx_2020-01-01.log'', IsDir = False, Info = Some 5\<rparr>,
            \<lparr>Name = ''db_2020-01-01.log_old.log'', IsDir = False, Info = Some 5\<rparr>,
            \<lparr>Name = ''db_2020-13-01.log'', IsDir = False, Info = Some 5\<rparr>,
            \<lparr>Name = ''db.log'', IsDir = False, Info = Some 5\<rparr>,
            \<lparr>Name = ''db_2024-05-31.log'', IsDir = False, Info = Some 990\<rparr>]) =
     [''db_2020-01-01.log'', ''dbx_2020-01-01.log'', ''db_2020-01-01.log_old.log''] \<and>
   matches_pattern ''db'' ''db_2020-01-01.log'' \<and>
   \<not> matches_pattern ''db'' ''dbx_2020-01-01.log'' \<and>
   \<not> matches_pattern ''db'' ''db_2020-01-01.log_old.log'' \<and>
   cleanupOldLogs
     \<lparr>dir = ''./logs'', baseFileName = ''my_db'', currentDate = ''2024-06-01'', maxAge = 30,
      logRotationEnabled = True\<rparr> 1000
     (Some [\<lparr>Name = ''my_db_2020-01-01.log'', IsDir = False, Info = Some 5\<rparr>]) = [] \<and>
   matches_pattern ''my_db'' ''my_db_2020-01-01.log''"
  by code_simp

end
